theory Spec2Isabelle
  imports Main "HOL-Library.Sublist"
begin

section \<open>JavaScript strings and the string primitives the proxy uses\<close>

text \<open>
  A JavaScript string is represented by its UTF-8 encoding, a \<^typ>\<open>string\<close> (a list of
  8-bit characters). All the separators and prefixes the proxy searches for are ASCII, so
  \<open>indexOf\<close>, \<open>slice\<close>, \<open>split\<close> and \<open>startsWith\<close> act on the encoding exactly as they act
  on the code units. A \<open>Buffer\<close> (a chunk of standard input) is a list of bytes of the
  same type.
\<close>

definition NL :: char where
  "NL = CHR 0x0A"

definition CR :: char where
  "CR = CHR 0x0D"

text \<open>\<open>haystack.indexOf(pat)\<close>: the first position where \<open>pat\<close> occurs, \<open>None\<close> for \<open>-1\<close>.\<close>

fun indexOf :: "string \<Rightarrow> string \<Rightarrow> nat option" where
  "indexOf pat [] = (if pat = [] then Some 0 else None)"
| "indexOf pat (c # cs) =
     (if prefix pat (c # cs) then Some 0 else map_option Suc (indexOf pat cs))"

text \<open>\<open>s.startsWith(p)\<close>.\<close>

definition startsWith :: "string \<Rightarrow> string \<Rightarrow> bool" where
  "startsWith s p = prefix p s"

text \<open>
  \<open>s.split(sep)\<close> for a separator: the pieces between the successive leftmost
  occurrences of \<open>sep\<close>; always at least one piece. An empty separator splits into
  single characters.
\<close>

function js_split :: "string \<Rightarrow> string \<Rightarrow> string list" where
  "js_split sep s =
     (if sep = [] then map (\<lambda>c. [c]) s
      else case indexOf sep s of
             None \<Rightarrow> [s]
           | Some i \<Rightarrow> take i s # js_split sep (drop (i + length sep) s))"
  by pat_completeness auto

lemma indexOf_bound:
  "indexOf pat s = Some i \<Longrightarrow> i + length pat \<le> length s"
proof (induction s arbitrary: i)
  case Nil
  then show ?case by (auto split: if_splits)
next
  case (Cons c cs)
  show ?case
  proof (cases "prefix pat (c # cs)")
    case True
    with Cons.prems show ?thesis by (auto dest: prefix_length_le)
  next
    case False
    with Cons.prems obtain j where "indexOf pat cs = Some j" "i = Suc j" by auto
    with Cons.IH show ?thesis by auto
  qed
qed

termination js_split
proof (relation "measure (\<lambda>(sep, s). length s)")
  show "wf (measure (\<lambda>(sep, s). length s))" by simp
next
  fix sep s :: string and i
  assume "sep \<noteq> []" "indexOf sep s = Some i"
  then have "i + length sep \<le> length s" and "0 < length sep"
    by (simp_all add: indexOf_bound)
  then have "length (drop (i + length sep) s) < length s"
    unfolding length_drop by arith
  then show "((sep, drop (i + length sep) s), (sep, s)) \<in> measure (\<lambda>(sep, s). length s)"
    by simp
qed

text \<open>
  \<open>s.trim()\<close> removes leading and trailing WhiteSpace and LineTerminator code points
  (ECMAScript): U+0009..U+000D, U+0020, U+00A0, U+1680, U+2000..U+200A, U+2028, U+2029,
  U+202F, U+205F, U+3000 and U+FEFF, listed here by their UTF-8 encodings.
\<close>

definition js_whitespace :: "string list" where
  "js_whitespace =
     [[CHR 0x09], [CHR 0x0A], [CHR 0x0B], [CHR 0x0C], [CHR 0x0D], [CHR 0x20],
      [CHR 0xC2, CHR 0xA0],
      [CHR 0xE1, CHR 0x9A, CHR 0x80],
      [CHR 0xE2, CHR 0x80, CHR 0x80], [CHR 0xE2, CHR 0x80, CHR 0x81],
      [CHR 0xE2, CHR 0x80, CHR 0x82], [CHR 0xE2, CHR 0x80, CHR 0x83],
      [CHR 0xE2, CHR 0x80, CHR 0x84], [CHR 0xE2, CHR 0x80, CHR 0x85],
      [CHR 0xE2, CHR 0x80, CHR 0x86], [CHR 0xE2, CHR 0x80, CHR 0x87],
      [CHR 0xE2, CHR 0x80, CHR 0x88], [CHR 0xE2, CHR 0x80, CHR 0x89],
      [CHR 0xE2, CHR 0x80, CHR 0x8A],
      [CHR 0xE2, CHR 0x80, CHR 0xA8], [CHR 0xE2, CHR 0x80, CHR 0xA9],
      [CHR 0xE2, CHR 0x80, CHR 0xAF],
      [CHR 0xE2, CHR 0x81, CHR 0x9F],
      [CHR 0xE3, CHR 0x80, CHR 0x80],
      [CHR 0xEF, CHR 0xBB, CHR 0xBF]]"

function trimStart :: "string \<Rightarrow> string" where
  "trimStart s =
     (case find (\<lambda>w. prefix w s) js_whitespace of
        None \<Rightarrow> s
      | Some w \<Rightarrow> trimStart (drop (length w) s))"
  by pat_completeness auto

function trimEnd :: "string \<Rightarrow> string" where
  "trimEnd s =
     (case find (\<lambda>w. suffix w s) js_whitespace of
        None \<Rightarrow> s
      | Some w \<Rightarrow> trimEnd (take (length s - length w) s))"
  by pat_completeness auto

lemma js_whitespace_nonempty: "w \<in> set js_whitespace \<Longrightarrow> w \<noteq> []"
  by (auto simp: js_whitespace_def)

lemma find_SomeD: "find P xs = Some x \<Longrightarrow> x \<in> set xs \<and> P x"
  by (induction xs) (auto split: if_splits)

termination trimStart
proof (relation "measure length")
  show "wf (measure length)" by simp
next
  fix s w :: string
  assume "find (\<lambda>w. prefix w s) js_whitespace = Some w"
  then have "w \<in> set js_whitespace" and "prefix w s"
    by (auto dest: find_SomeD)
  then have "0 < length w" and "length w \<le> length s"
    by (auto dest: js_whitespace_nonempty prefix_length_le)
  then have "length (drop (length w) s) < length s"
    unfolding length_drop by arith
  then show "(drop (length w) s, s) \<in> measure length" by simp
qed

termination trimEnd
proof (relation "measure length")
  show "wf (measure length)" by simp
next
  fix s w :: string
  assume "find (\<lambda>w. suffix w s) js_whitespace = Some w"
  then have "w \<in> set js_whitespace" and "suffix w s"
    by (auto dest: find_SomeD)
  then have "0 < length w" and "length w \<le> length s"
    by (auto dest: js_whitespace_nonempty suffix_length_le)
  then have "length (take (length s - length w) s) < length s"
    unfolding length_take by arith
  then show "(take (length s - length w) s, s) \<in> measure length" by simp
qed

definition js_trim :: "string \<Rightarrow> string" where
  "js_trim s = trimEnd (trimStart s)"

section \<open>Decoding a chunk of bytes\<close>

text \<open>
  \<open>chunk.toString()\<close> on a \<open>Buffer\<close> decodes the bytes of that one chunk as UTF-8; every
  maximal ill-formed part becomes U+FFFD (the decoder of the Encoding standard, run to
  the end of the chunk). In the representation chosen here a well-formed sequence is
  copied and U+FFFD is the three bytes \<open>EF BF BD\<close>. The decoder's state is the number of
  continuation bytes still needed, the range allowed for the next one, and the bytes of
  the sequence read so far.
\<close>

definition REPL :: string where
  "REPL = [CHR 0xEF, CHR 0xBF, CHR 0xBD]"

type_synonym utf8_state = "nat \<times> nat \<times> nat \<times> string"

definition utf8_idle :: utf8_state where
  "utf8_idle = (0, 0x80, 0xBF, [])"

definition utf8_lead :: "char \<Rightarrow> string \<times> utf8_state" where
  "utf8_lead b =
     (let n = (of_char b :: nat) in
      if n \<le> 0x7F then ([b], utf8_idle)
      else if 0xC2 \<le> n \<and> n \<le> 0xDF then ([], (1, 0x80, 0xBF, [b]))
      else if 0xE0 \<le> n \<and> n \<le> 0xEF then
        ([], (2, (if n = 0xE0 then 0xA0 else 0x80), (if n = 0xED then 0x9F else 0xBF), [b]))
      else if 0xF0 \<le> n \<and> n \<le> 0xF4 then
        ([], (3, (if n = 0xF0 then 0x90 else 0x80), (if n = 0xF4 then 0x8F else 0xBF), [b]))
      else (REPL, utf8_idle))"

fun utf8_step :: "utf8_state \<Rightarrow> char \<Rightarrow> string \<times> utf8_state" where
  "utf8_step (needed, lower, upper, seen) b =
     (let n = (of_char b :: nat) in
      if needed = 0 then utf8_lead b
      else if n < lower \<or> upper < n then
        (case utf8_lead b of (out, st) \<Rightarrow> (REPL @ out, st))
      else if needed = 1 then (seen @ [b], utf8_idle)
      else ([], (needed - 1, 0x80, 0xBF, seen @ [b])))"

fun utf8_decode :: "utf8_state \<Rightarrow> string \<Rightarrow> string" where
  "utf8_decode (needed, lower, upper, seen) [] = (if needed = 0 then [] else REPL)"
| "utf8_decode st (b # bs) =
     (case utf8_step st b of (out, st') \<Rightarrow> out @ utf8_decode st' bs)"

definition toString :: "string \<Rightarrow> string" where
  "toString chunk = utf8_decode utf8_idle chunk"

section \<open>The bridge: state, environment and observable effects\<close>

text \<open>
  The two module-level variables of \<open>proxy.js\<close>. \<open>sseUrl\<close> is a constant of a run and is
  passed as a parameter.
\<close>

record bridge =
  postUrl :: string
  inputBuffer :: string

text \<open>
  What the process does to the outside, in order:
  \<open>Get u\<close> is \<open>fetch(u)\<close> for the event stream, \<open>Post u b\<close> is the \<open>fetch\<close> with method POST
  to \<open>u\<close> and body \<open>b\<close>, \<open>Stdout s\<close> is \<open>stdout.write(s)\<close>, \<open>Stderr m\<close> is
  \<open>console.error(m)\<close> and \<open>Exit n\<close> is \<open>process.exit(n)\<close>. \<open>log\<close> has an empty body and
  leaves no effect.
\<close>

datatype effect =
    Get string
  | Post string string
  | Stdout string
  | Stderr string
  | Exit nat

text \<open>
  How one POST ends: \<open>fetch\<close> rejects with an error message; or a response with a status
  arrives and reading its body rejects; or the body is read as text.
\<close>

datatype post_outcome =
    FetchRejects string
  | TextRejects nat string
  | Replied nat string

text \<open>A value produced by \<open>JSON.parse\<close>; an object is the list of its own properties.\<close>

datatype json =
    JNull
  | JBool bool
  | JNumber string
  | JString string
  | JArray "json list"
  | JObject "(string \<times> json) list"

datatype js_value = Undefined | Value json

text \<open>
  The runtime the proxy calls into and that is not part of the repository:
  the remote endpoint answering the \<open>n\<close>-th POST of the run (\<open>fetch_post n url body\<close>),
  \<open>new URL(u).origin\<close> (\<open>None\<close> when the constructor throws) and \<open>JSON.parse\<close>
  (\<open>None\<close> when it throws).
\<close>

record runtime =
  fetch_post :: "nat \<Rightarrow> string \<Rightarrow> string \<Rightarrow> post_outcome"
  url_origin :: "string \<Rightarrow> string option"
  json_parse :: "string \<Rightarrow> json option"

fun is_post :: "effect \<Rightarrow> bool" where
  "is_post (Post u b) = True"
| "is_post e = False"

definition posts :: "effect list \<Rightarrow> effect list" where
  "posts tr = filter is_post tr"

section \<open>Startup (proxy.js, lines 16 to 25)\<close>

text \<open>\<open>sseUrl.replace(/\/sse$/, '/mcp')\<close>: the pattern can only match at the end of the string.\<close>

definition replace_sse_suffix :: "string \<Rightarrow> string" where
  "replace_sse_suffix u =
     (if suffix ''/sse'' u then take (length u - 4) u @ ''/mcp'' else u)"

datatype startup =
    Exited "effect list"
  | Started string bridge

text \<open>
  \<open>argv\<close> is \<open>process.argv\<close>. \<open>process.argv[2]\<close> is \<open>undefined\<close> when the list is too short;
  \<open>!sseUrl\<close> holds for \<open>undefined\<close> and for the empty string.
\<close>

definition startup :: "string list \<Rightarrow> startup" where
  "startup argv =
     (if length argv \<le> 2 \<or> argv ! 2 = [] then
        Exited [Stderr ''Usage: node proxy.js <sse-url>'', Exit 1]
      else
        Started (argv ! 2) \<lparr>postUrl = replace_sse_suffix (argv ! 2), inputBuffer = []\<rparr>)"

section \<open>Standard input to POST (proxy.js, lines 37 to 70)\<close>

text \<open>
  What follows the two \<open>await\<close>s of a POST, by its outcome: the response text on standard
  output when it is not blank, or, in the \<open>catch\<close>, a message on standard error. The
  response status is only logged.
\<close>

definition settle :: "post_outcome \<Rightarrow> effect list" where
  "settle outcome =
     (case outcome of
        FetchRejects msg \<Rightarrow> [Stderr (''[Proxy] Error forwarding request: '' @ msg)]
      | TextRejects status msg \<Rightarrow> [Stderr (''[Proxy] Error forwarding request: '' @ msg)]
      | Replied status text \<Rightarrow>
          (if text \<noteq> [] \<and> js_trim text \<noteq> [] then [Stdout (text @ [NL])] else []))"

text \<open>
  The handler is \<open>async\<close>: at the \<open>await\<close> of a POST it is suspended, and until the POST
  completes other chunks may arrive and other invocations of the handler may run on the
  same \<open>inputBuffer\<close>. The world is the bridge, the effects so far, and the POSTs in flight
  (target and body), one for each suspended invocation.
\<close>

record world =
  state :: bridge
  effects :: "effect list"
  inflight :: "(string \<times> string) list"

text \<open>
  The \<open>while\<close> loop from its head up to the next \<open>await\<close>: blank lines are taken from
  the buffer and dropped; at the first line that is not blank \<open>fetch\<close> is called with
  the current target and the invocation is suspended; with no newline in the buffer the
  invocation ends.
\<close>

function pump :: "world \<Rightarrow> world" where
  "pump w =
     (case indexOf [NL] (inputBuffer (state w)) of
        None \<Rightarrow> w
      | Some newlineIndex \<Rightarrow>
          (let line = take newlineIndex (inputBuffer (state w));
               w' = w\<lparr>state := (state w)\<lparr>inputBuffer :=
                         drop (newlineIndex + 1) (inputBuffer (state w))\<rparr>\<rparr>
           in if js_trim line \<noteq> []
              then w'\<lparr>effects := effects w' @ [Post (postUrl (state w')) line],
                      inflight := inflight w' @ [(postUrl (state w'), line)]\<rparr>
              else pump w'))"
  by pat_completeness auto

termination pump
proof (relation "measure (\<lambda>w. length (inputBuffer (state w)))")
  show "wf (measure (\<lambda>w. length (inputBuffer (state w))))" by simp
next
  fix w w' :: world and i and line :: string
  assume i: "indexOf [NL] (inputBuffer (state w)) = Some i"
    and w': "w' = w\<lparr>state := (state w)\<lparr>inputBuffer := drop (i + 1) (inputBuffer (state w))\<rparr>\<rparr>"
  from i have "i + 1 \<le> length (inputBuffer (state w))"
    using indexOf_bound [of "[NL]" "inputBuffer (state w)" i] by simp
  then have "length (inputBuffer (state w')) < length (inputBuffer (state w))"
    using w' by simp
  then show "(w', w) \<in> measure (\<lambda>w. length (inputBuffer (state w)))"
    by simp
qed

text \<open>
  The body of the \<open>if (line.trim())\<close> when nothing else happens during its \<open>await\<close>s:
  the POST of the line to the current target, then what its outcome brings. The outcome
  of the \<open>n\<close>-th POST of the run is the runtime's.
\<close>

definition forward :: "runtime \<Rightarrow> nat \<Rightarrow> string \<Rightarrow> string \<Rightarrow> effect list" where
  "forward rt n url line = Post url line # settle (fetch_post rt n url line)"

text \<open>
  The \<open>while\<close> loop run to its end, every POST completing before anything else happens.
\<close>

function stdin_loop :: "runtime \<Rightarrow> bridge \<Rightarrow> effect list \<Rightarrow> bridge \<times> effect list" where
  "stdin_loop rt st tr =
     (case indexOf [NL] (inputBuffer st) of
        None \<Rightarrow> (st, tr)
      | Some newlineIndex \<Rightarrow>
          (let line = take newlineIndex (inputBuffer st);
               st' = st\<lparr>inputBuffer := drop (newlineIndex + 1) (inputBuffer st)\<rparr>
           in if js_trim line \<noteq> []
              then stdin_loop rt st' (tr @ forward rt (length (posts tr)) (postUrl st') line)
              else stdin_loop rt st' tr))"
  by pat_completeness auto

termination stdin_loop
proof (relation "measure (\<lambda>(rt, st, tr). length (inputBuffer st))")
  show "wf (measure (\<lambda>(rt, st, tr). length (inputBuffer st)))" by simp
next
  fix rt :: runtime and st st' :: bridge and tr :: "effect list" and i and line :: string
  assume i: "indexOf [NL] (inputBuffer st) = Some i"
    and st': "st' = st\<lparr>inputBuffer := drop (i + 1) (inputBuffer st)\<rparr>"
  from i have "i + 1 \<le> length (inputBuffer st)"
    using indexOf_bound [of "[NL]" "inputBuffer st" i] by simp
  then have "length (inputBuffer st') < length (inputBuffer st)"
    using st' by simp
  then show "((rt, st', tr @ forward rt (length (posts tr)) (postUrl st') line), rt, st, tr)
      \<in> measure (\<lambda>(rt, st, tr). length (inputBuffer st))"
    and "((rt, st', tr), rt, st, tr) \<in> measure (\<lambda>(rt, st, tr). length (inputBuffer st))"
    by simp_all
qed

definition stdin_on_data :: "runtime \<Rightarrow> bridge \<times> effect list \<Rightarrow> string \<Rightarrow> bridge \<times> effect list" where
  "stdin_on_data rt w chunk =
     (case w of (st, tr) \<Rightarrow>
        stdin_loop rt (st\<lparr>inputBuffer := inputBuffer st @ toString chunk\<rparr>) tr)"

text \<open>The handler run on the chunks of standard input, one after the other.\<close>

definition stdin_run :: "runtime \<Rightarrow> bridge \<times> effect list \<Rightarrow> string list \<Rightarrow> bridge \<times> effect list" where
  "stdin_run rt w chunks = foldl (stdin_on_data rt) w chunks"

section \<open>The relay without a buffer (unnamed/part\_000, lines 25 to 51)\<close>

text \<open>
  The earlier handler splits each chunk on its own and keeps nothing from one chunk to
  the next; its \<open>postUrl\<close> is a constant.
\<close>

definition unbuffered_line :: "runtime \<Rightarrow> string \<Rightarrow> effect list \<Rightarrow> string \<Rightarrow> effect list" where
  "unbuffered_line rt url tr line =
     (if js_trim line \<noteq> [] then tr @ forward rt (length (posts tr)) url line else tr)"

definition unbuffered_on_data :: "runtime \<Rightarrow> string \<Rightarrow> effect list \<Rightarrow> string \<Rightarrow> effect list" where
  "unbuffered_on_data rt url tr chunk =
     foldl (unbuffered_line rt url) tr (js_split [NL] (toString chunk))"

definition unbuffered_run :: "runtime \<Rightarrow> string \<Rightarrow> effect list \<Rightarrow> string list \<Rightarrow> effect list" where
  "unbuffered_run rt url tr chunks = foldl (unbuffered_on_data rt url) tr chunks"

section \<open>Event stream to standard output (proxy.js, lines 73 to 152)\<close>

text \<open>
  \<open>msg.method\<close>: reading a property of \<open>null\<close> throws (\<open>None\<close>); an object gives its own
  property or \<open>undefined\<close>; booleans, numbers, strings and arrays have no such property.
\<close>

fun get_method :: "json \<Rightarrow> js_value option" where
  "get_method JNull = None"
| "get_method (JObject props) =
     Some (case map_of props ''method'' of None \<Rightarrow> Undefined | Some v \<Rightarrow> Value v)"
| "get_method j = Some Undefined"

text \<open>
  The second \<open>try\<close> of the data branch followed by the write: the payload is dropped only
  when it parses and its \<open>method\<close> is one of the two notifications.
\<close>

definition relay :: "runtime \<Rightarrow> string \<Rightarrow> effect list \<Rightarrow> effect list" where
  "relay rt dataStr tr =
     (case json_parse rt dataStr of
        None \<Rightarrow> tr @ [Stdout (dataStr @ [NL])]
      | Some msg \<Rightarrow>
          (case get_method msg of
             None \<Rightarrow> tr @ [Stdout (dataStr @ [NL])]
           | Some m \<Rightarrow>
               if m = Value (JString ''connection/ready'') \<or> m = Value (JString ''server/capabilities'')
               then tr
               else tr @ [Stdout (dataStr @ [NL])]))"

text \<open>
  The first \<open>try\<close> of the data branch: the new target, or \<open>None\<close> when \<open>new URL(sseUrl)\<close>
  throws before \<open>postUrl\<close> is assigned.
\<close>

definition endpoint_target :: "runtime \<Rightarrow> string \<Rightarrow> string \<Rightarrow> string option" where
  "endpoint_target rt sseUrl dataStr =
     (if startsWith dataStr ''http'' then Some dataStr
      else if startsWith dataStr ''/'' then
        (case url_origin rt sseUrl of
           None \<Rightarrow> None
         | Some baseUrl \<Rightarrow> Some (baseUrl @ dataStr))
      else Some dataStr)"

text \<open>
  One line of an event block. The state is \<open>isEndpointEvent\<close>, the bridge and the effects
  so far. When the first \<open>try\<close> throws, the flag stays set and the payload goes on to the
  classification.
\<close>

fun sse_line :: "runtime \<Rightarrow> string \<Rightarrow> bool \<times> bridge \<times> effect list \<Rightarrow> string
    \<Rightarrow> bool \<times> bridge \<times> effect list" where
  "sse_line rt sseUrl (isEndpointEvent, st, tr) line =
     (if startsWith line ''event: '' then
        (if js_trim (drop 7 line) = ''endpoint'' then (True, st, tr)
         else (isEndpointEvent, st, tr))
      else if startsWith line ''data: '' then
        (let dataStr = drop 6 line in
         if isEndpointEvent then
           (case endpoint_target rt sseUrl dataStr of
              Some u \<Rightarrow> (False, st\<lparr>postUrl := u\<rparr>, tr)
            | None \<Rightarrow> (isEndpointEvent, st, relay rt dataStr tr))
         else (isEndpointEvent, st, relay rt dataStr tr))
      else (isEndpointEvent, st, tr))"

definition sse_event :: "runtime \<Rightarrow> string \<Rightarrow> bridge \<times> effect list \<Rightarrow> string
    \<Rightarrow> bridge \<times> effect list" where
  "sse_event rt sseUrl w event =
     (case w of (st, tr) \<Rightarrow>
        snd (foldl (sse_line rt sseUrl) (False, st, tr) (js_split [NL] event)))"

text \<open>
  \<open>sseBuffer += chunk; events = sseBuffer.split('\n\n'); sseBuffer = events.pop()\<close>:
  the complete blocks and the part kept for the next read.
\<close>

definition event_framer :: "string \<Rightarrow> string \<Rightarrow> string list \<times> string" where
  "event_framer sseBuffer chunk =
     (let events = js_split [NL, NL] (sseBuffer @ chunk)
      in (butlast events, last events))"

text \<open>
  One pass of the read loop for a chunk that \<open>decoder.decode(value, {stream: true})\<close>
  returned; the streaming decoder keeps an unfinished byte sequence to itself, so the
  chunks here are text.
\<close>

definition sse_read :: "runtime \<Rightarrow> string \<Rightarrow> string \<times> bridge \<times> effect list \<Rightarrow> string
    \<Rightarrow> string \<times> bridge \<times> effect list" where
  "sse_read rt sseUrl v chunk =
     (case v of (sseBuffer, st, tr) \<Rightarrow>
        (case event_framer sseBuffer chunk of (events, rest) \<Rightarrow>
           (rest, foldl (sse_event rt sseUrl) (st, tr) events)))"

text \<open>
  What one connection does from the outside: \<open>fetch\<close> rejects, or a response arrives with
  \<open>ok\<close>, \<open>status\<close>, \<open>statusText\<close> and a body. The body is \<open>null\<close> (then
  \<open>response.body.getReader()\<close> throws a \<open>TypeError\<close>), or it is a list of chunks read after
  which the stream ends (\<open>done\<close>), \<open>reader.read()\<close> rejects, or the stream is still open.
\<close>

datatype stream_end = StreamDone | StreamError string | StreamOpen

datatype sse_body = NoBody | Body "string list" stream_end

datatype sse_response =
    ConnectRejects string
  | ConnectResponse bool nat string sse_body

text \<open>
  Where \<open>connectSSE\<close> stands afterwards: waiting in the read loop with its buffer,
  a timer set by \<open>setTimeout(connectSSE, ms)\<close>, or returned with no timer set.
\<close>

datatype supervisor = STREAMING string | WAITING nat | RETURNED

fun digit_char :: "nat \<Rightarrow> char" where
  "digit_char n = char_of (48 + n)"

fun string_of_nat :: "nat \<Rightarrow> string" where
  "string_of_nat n =
     (if n < 10 then [digit_char n] else string_of_nat (n div 10) @ [digit_char (n mod 10)])"

definition connectSSE :: "runtime \<Rightarrow> string \<Rightarrow> bridge \<times> effect list \<Rightarrow> sse_response
    \<Rightarrow> bridge \<times> effect list \<times> supervisor" where
  "connectSSE rt sseUrl w resp =
     (case w of (st, tr) \<Rightarrow>
        (case resp of
           ConnectRejects msg \<Rightarrow>
             (st, tr @ [Get sseUrl, Stderr (''[Proxy] SSE Error: '' @ msg)], WAITING 5000)
         | ConnectResponse ok status statusText body \<Rightarrow>
             if \<not> ok then
               (st, tr @ [Get sseUrl,
                    Stderr (''[Proxy] SSE Error: '' @ ''SSE connection failed: ''
                            @ string_of_nat status @ '' '' @ statusText)],
                WAITING 5000)
             else
               (case body of
                  NoBody \<Rightarrow>
                    (st, tr @ [Get sseUrl,
                         Stderr (''[Proxy] SSE Error: ''
                                 @ ''Cannot read properties of null (reading 'getReader')'')],
                     WAITING 5000)
                | Body chunks ending \<Rightarrow>
                    (case foldl (sse_read rt sseUrl) ([], st, tr @ [Get sseUrl]) chunks of
                       (sseBuffer, st', tr') \<Rightarrow>
                         (case ending of
                            StreamDone \<Rightarrow> (st', tr', RETURNED)
                          | StreamError msg \<Rightarrow>
                              (st', tr' @ [Stderr (''[Proxy] SSE Error: '' @ msg)], WAITING 5000)
                          | StreamOpen \<Rightarrow> (st', tr', STREAMING sseBuffer))))))"

text \<open>
  The connections of a run. The script calls \<open>connectSSE\<close> once (line 154); afterwards
  only a timer that was set calls it again, with the next response of the remote.
\<close>

definition reconnect :: "runtime \<Rightarrow> string \<Rightarrow> bridge \<times> effect list \<times> supervisor \<Rightarrow> sse_response
    \<Rightarrow> bridge \<times> effect list \<times> supervisor" where
  "reconnect rt sseUrl v resp =
     (case v of
        (st, tr, WAITING ms) \<Rightarrow> connectSSE rt sseUrl (st, tr) resp
      | (st, tr, s) \<Rightarrow> (st, tr, s))"

definition connections :: "runtime \<Rightarrow> string \<Rightarrow> bridge \<times> effect list \<Rightarrow> sse_response
    \<Rightarrow> sse_response list \<Rightarrow> bridge \<times> effect list \<times> supervisor" where
  "connections rt sseUrl w resp resps =
     foldl (reconnect rt sseUrl) (connectSSE rt sseUrl w resp) resps"

section \<open>The bridge as a reactive system\<close>

text \<open>
  What can happen to the running bridge: a chunk arrives on standard input; the \<open>i\<close>-th
  POST in flight completes with an outcome; the listener handles an event block of the
  stream.
\<close>

datatype occurrence =
    Arrives string
  | Completes nat post_outcome
  | Listens string

text \<open>
  A chunk is decoded, appended to the buffer, and the new invocation runs up to its first
  \<open>await\<close>. A completion resumes the invocation that was waiting for it: the outcome is
  settled and the loop goes on, on the buffer as it is by then. A completion for a POST
  that is not in flight does not happen.
\<close>

definition occurs :: "runtime \<Rightarrow> string \<Rightarrow> world \<Rightarrow> occurrence \<Rightarrow> world" where
  "occurs rt sseUrl w occ =
     (case occ of
        Arrives chunk \<Rightarrow>
          pump (w\<lparr>state := (state w)\<lparr>inputBuffer := inputBuffer (state w) @ toString chunk\<rparr>\<rparr>)
      | Completes i outcome \<Rightarrow>
          (if i < length (inflight w)
           then pump (w\<lparr>effects := effects w @ settle outcome,
                         inflight := take i (inflight w) @ drop (Suc i) (inflight w)\<rparr>)
           else w)
      | Listens event \<Rightarrow>
          (case sse_event rt sseUrl (state w, effects w) event of
             (st, tr) \<Rightarrow> w\<lparr>state := st, effects := tr\<rparr>))"

declare pump.simps [simp del]

text \<open>
  Each step of the loop takes at least one character from the buffer and suspends at most
  one more invocation.
\<close>

lemma pump_measure:
  "2 * length (inputBuffer (state (pump w))) + length (inflight (pump w))
     \<le> 2 * length (inputBuffer (state w)) + length (inflight w)"
proof (induction w rule: pump.induct)
  case (1 w)
  show ?case
  proof (cases "indexOf [NL] (inputBuffer (state w))")
    case None
    then have "pump w = w" by (subst pump.simps) simp
    then show ?thesis by simp
  next
    case (Some i)
    define line where "line = take i (inputBuffer (state w))"
    define w' where "w' = w\<lparr>state := (state w)\<lparr>inputBuffer := drop (i + 1) (inputBuffer (state w))\<rparr>\<rparr>"
    from Some have len: "i + 1 \<le> length (inputBuffer (state w))"
      using indexOf_bound [of "[NL]" "inputBuffer (state w)" i] by simp
    show ?thesis
    proof (cases "js_trim line \<noteq> []")
      case True
      then have "pump w = w'\<lparr>effects := effects w' @ [Post (postUrl (state w')) line],
                      inflight := inflight w' @ [(postUrl (state w'), line)]\<rparr>"
        using Some by (subst pump.simps) (simp add: w'_def line_def Let_def)
      then show ?thesis using len by (simp add: w'_def)
    next
      case False
      then have "pump w = pump w'"
        using Some by (subst pump.simps) (simp add: w'_def line_def Let_def)
      with "1.IH" [OF Some line_def w'_def] False len show ?thesis
        by (simp add: w'_def)
    qed
  qed
qed

text \<open>
  The schedule where every POST completes at once: while a POST is in flight (it is then
  the last one made, and the \<open>n\<close>-th of the run for \<open>n\<close> one less than the number of POSTs
  so far), it completes with the outcome the runtime gives it.
\<close>

function complete_all :: "runtime \<Rightarrow> string \<Rightarrow> world \<Rightarrow> world" where
  "complete_all rt sseUrl w =
     (case inflight w of
        [] \<Rightarrow> w
      | (url, line) # rest \<Rightarrow>
          complete_all rt sseUrl
            (occurs rt sseUrl w
               (Completes 0 (fetch_post rt (length (posts (effects w)) - 1) url line))))"
  by pat_completeness auto

termination complete_all
proof (relation "measure (\<lambda>(rt, sseUrl, w).
    2 * length (inputBuffer (state w)) + length (inflight w))")
  show "wf (measure (\<lambda>(rt, sseUrl, w).
      2 * length (inputBuffer (state w)) + length (inflight w)))"
    by simp
next
  fix rt :: runtime and sseUrl :: string and w :: world and x rest url line
  assume "inflight w = x # rest" and "(url, line) = x"
  then have i: "inflight w = (url, line) # rest" by simp
  define out where "out = fetch_post rt (length (posts (effects w)) - 1) url line"
  define u where "u = w\<lparr>effects := effects w @ settle out,
      inflight := take 0 (inflight w) @ drop (Suc 0) (inflight w)\<rparr>"
  have "occurs rt sseUrl w (Completes 0 out) = pump u"
    using i by (simp add: occurs_def u_def)
  moreover have "2 * length (inputBuffer (state u)) + length (inflight u)
      < 2 * length (inputBuffer (state w)) + length (inflight w)"
    using i by (simp add: u_def)
  ultimately have "2 * length (inputBuffer (state (occurs rt sseUrl w (Completes 0 out))))
        + length (inflight (occurs rt sseUrl w (Completes 0 out)))
      < 2 * length (inputBuffer (state w)) + length (inflight w)"
    using pump_measure [of u] by simp
  then show "((rt, sseUrl, occurs rt sseUrl w
        (Completes 0 (fetch_post rt (length (posts (effects w)) - 1) url line))),
      rt, sseUrl, w)
    \<in> measure (\<lambda>(rt, sseUrl, w). 2 * length (inputBuffer (state w)) + length (inflight w))"
    by (simp add: out_def)
qed

section \<open>Notions used to state the properties\<close>

text \<open>
  The effects of a sequence of messages, one block per message: the \<open>n\<close>-th POST of the run
  and what follows from its outcome, then the block of the next message.
\<close>

fun blocks :: "runtime \<Rightarrow> string \<Rightarrow> nat \<Rightarrow> string list \<Rightarrow> effect list" where
  "blocks rt url n [] = []"
| "blocks rt url n (l # ls) = forward rt n url l @ blocks rt url (Suc n) ls"

text \<open>A text made of white space only (possibly empty).\<close>

inductive whitespace_only :: "string \<Rightarrow> bool" where
  empty: "whitespace_only []"
| more: "w \<in> set js_whitespace \<Longrightarrow> whitespace_only s \<Longrightarrow> whitespace_only (w @ s)"

text \<open>A text that contains a blank line, that is two newlines in a row.\<close>

fun has_blank_line :: "string \<Rightarrow> bool" where
  "has_blank_line (a # b # s) = ((a = NL \<and> b = NL) \<or> has_blank_line (b # s))"
| "has_blank_line s = False"

text \<open>
  An event block as it stands in a stream before its delimiter: no blank line inside it,
  and no newline at its end, so that the blank line that follows it is the first one.
\<close>

definition is_block :: "string \<Rightarrow> bool" where
  "is_block b = (\<not> has_blank_line (b @ [NL]))"

text \<open>
  The events the framer has yielded after a sequence of reads, with the buffer it is left
  with.
\<close>

definition framer_feed :: "string \<times> string list \<Rightarrow> string \<Rightarrow> string \<times> string list" where
  "framer_feed v chunk =
     (case v of (sseBuffer, yielded) \<Rightarrow>
        (case event_framer sseBuffer chunk of (events, rest) \<Rightarrow> (rest, yielded @ events)))"

text \<open>
  A payload that parses as JSON to an object whose \<open>method\<close> is one of the two
  connection notifications.
\<close>

definition method_of :: "json \<Rightarrow> string option" where
  "method_of j =
     (case j of
        JObject props \<Rightarrow>
          (case map_of props ''method'' of Some (JString m) \<Rightarrow> Some m | _ \<Rightarrow> None)
      | _ \<Rightarrow> None)"

definition suppressed :: "runtime \<Rightarrow> string \<Rightarrow> bool" where
  "suppressed rt d =
     (case json_parse rt d of
        None \<Rightarrow> False
      | Some j \<Rightarrow>
          method_of j = Some ''connection/ready'' \<or> method_of j = Some ''server/capabilities'')"

text \<open>
  A write to standard output that is one line: text without a newline, then one newline.
\<close>

fun is_line_write :: "effect \<Rightarrow> bool" where
  "is_line_write (Stdout s) = (s \<noteq> [] \<and> last s = NL \<and> NL \<notin> set (butlast s))"
| "is_line_write e = False"

text \<open>
  The decoded text that has arrived on standard input in a sequence of occurrences.
\<close>

fun arrival :: "occurrence \<Rightarrow> string" where
  "arrival (Arrives chunk) = toString chunk"
| "arrival occ = []"

definition arrived :: "occurrence list \<Rightarrow> string" where
  "arrived occs = concat (map arrival occs)"

text \<open>The bodies POSTed in a trace, in order.\<close>

fun post_body :: "effect \<Rightarrow> string" where
  "post_body (Post u b) = b"
| "post_body e = []"

definition bodies :: "effect list \<Rightarrow> string list" where
  "bodies tr = map post_body (posts tr)"

text \<open>The non-blank lines of a text that are ended by a newline, in order.\<close>

definition complete_lines :: "string \<Rightarrow> string list" where
  "complete_lines s = filter (\<lambda>l. js_trim l \<noteq> []) (butlast (js_split [NL] s))"

text \<open>
  The invariant of the line framer for the text \<open>t\<close> received so far: the lines of \<open>t\<close>
  are lines already taken, followed by the pieces of the buffer, and the bodies POSTed
  (after those of the start, \<open>pre\<close>) are the non-blank ones among the lines taken.
\<close>

definition framing :: "string list \<Rightarrow> string \<Rightarrow> world \<Rightarrow> bool" where
  "framing pre t w = (\<exists>ls. js_split [NL] t = ls @ js_split [NL] (inputBuffer (state w))
                   \<and> bodies (effects w) = pre @ filter (\<lambda>l. js_trim l \<noteq> []) ls)"

text \<open>A world where a complete line in the buffer has an invocation that will take it.\<close>

definition attended :: "world \<Rightarrow> bool" where
  "attended w = (inflight w \<noteq> [] \<or> indexOf [NL] (inputBuffer (state w)) = None)"

text \<open>
  A line that sets \<open>isEndpointEvent\<close>, and the handling of an event block that has such a
  line: an endpoint event.
\<close>

definition names_endpoint :: "string \<Rightarrow> bool" where
  "names_endpoint line = (startsWith line ''event: '' \<and> js_trim (drop 7 line) = ''endpoint'')"

fun endpoint_event :: "occurrence \<Rightarrow> bool" where
  "endpoint_event (Listens event) = list_ex names_endpoint (js_split [NL] event)"
| "endpoint_event occ = False"

text \<open>
  An event given by its fields, an optional name and a data payload; the block that carries
  it in the stream (the framing of the remote: at most one name line, then one data line);
  fields that fit on a line each.
\<close>

fun event_block :: "string option \<times> string \<Rightarrow> string" where
  "event_block (None, d) = ''data: '' @ d"
| "event_block (Some n, d) = ''event: '' @ n @ [NL] @ ''data: '' @ d"

fun fields_ok :: "string option \<times> string \<Rightarrow> bool" where
  "fields_ok (None, d) = (NL \<notin> set d)"
| "fields_ok (Some n, d) = (NL \<notin> set n \<and> NL \<notin> set d)"

text \<open>
  What the listener is to do with an event of these fields: an event named \<open>endpoint\<close>
  (the name is compared after trimming) sets the target from its data and writes nothing;
  any other event, and an endpoint event whose target cannot be computed, has its data
  classified and relayed.
\<close>

definition dispatch :: "runtime \<Rightarrow> string \<Rightarrow> bridge \<times> effect list \<Rightarrow> string option \<times> string
    \<Rightarrow> bridge \<times> effect list" where
  "dispatch rt sseUrl w e =
     (case w of (st, tr) \<Rightarrow>
        (case e of (name, d) \<Rightarrow>
           if (case name of None \<Rightarrow> False | Some n \<Rightarrow> js_trim n = ''endpoint'') then
             (case endpoint_target rt sseUrl d of
                Some u \<Rightarrow> (st\<lparr>postUrl := u\<rparr>, tr)
              | None \<Rightarrow> (st, relay rt d tr))
           else (st, relay rt d tr)))"

text \<open>The bytes that an occurrence brings on standard input, and bytes that are all ASCII.\<close>

fun chunk_of :: "occurrence \<Rightarrow> string" where
  "chunk_of (Arrives chunk) = chunk"
| "chunk_of occ = []"

definition ascii :: "string \<Rightarrow> bool" where
  "ascii bs = list_all (\<lambda>b. (of_char b :: nat) \<le> 0x7F) bs"

text \<open>A text that ends where a line ends: it is empty or its last character is a newline.\<close>

definition whole_lines :: "string \<Rightarrow> bool" where
  "whole_lines s = (s = [] \<or> last s = NL)"

text \<open>
  A remote endpoint and runtime to run the bridge on: the first POST of the run is refused,
  the second is answered with status 500, the third with a body that ends in a newline,
  the later ones with a blank body; only the origin of one URL is known; \<open>JSON.parse\<close>
  succeeds on three texts and throws on every other.
\<close>

definition example_runtime :: runtime where
  "example_runtime =
     \<lparr>fetch_post = (\<lambda>n url body.
        if n = 0 then FetchRejects ''fetch failed''
        else if n = 1 then Replied 500 ''{\"error\":1}''
        else if n = 2 then Replied 200 ''{}\<newline>''
        else Replied 200 '' ''),
      url_origin = (\<lambda>u.
        if u = ''https://w.example/sse'' then Some ''https://w.example'' else None),
      json_parse = (\<lambda>s.
        if s = ''{\"method\":\"connection/ready\"}''
        then Some (JObject [(''method'', JString ''connection/ready'')])
        else if s = ''{\"method\":\"notify\"}''
        then Some (JObject [(''method'', JString ''notify'')])
        else if s = ''null'' then Some JNull
        else None)\<rparr>"

definition example_bridge :: bridge where
  "example_bridge = \<lparr>postUrl = ''https://w.example/mcp'', inputBuffer = []\<rparr>"

definition example_world :: world where
  "example_world = \<lparr>state = example_bridge, effects = [], inflight = []\<rparr>"

section \<open>Searching and splitting\<close>

declare js_split.simps [simp del] stdin_loop.simps [simp del] trimStart.simps [simp del] trimEnd.simps [simp del]

lemma indexOf_append:
  "indexOf pat s = Some i \<Longrightarrow> indexOf pat (s @ t) = Some i"
proof (induction s arbitrary: i)
  case Nil
  then show ?case by (cases t) (auto split: if_splits)
next
  case (Cons c cs)
  show ?case
  proof (cases "prefix pat (c # cs)")
    case True
    then have "prefix pat ((c # cs) @ t)" by (rule prefix_prefix)
    with True Cons.prems show ?thesis by simp
  next
    case False
    with Cons.prems obtain j where j: "indexOf pat cs = Some j" "i = Suc j" by auto
    from j(1) have "length pat \<le> length (c # cs)"
      using indexOf_bound [of pat cs j] by simp
    have "\<not> prefix pat ((c # cs) @ t)"
    proof
      assume "prefix pat ((c # cs) @ t)"
      then consider "prefix pat (c # cs)" | us where "pat = (c # cs) @ us"
        unfolding prefix_append by blast
      then show False
      proof cases
        case 1
        with False show False by simp
      next
        case 2
        with \<open>length pat \<le> length (c # cs)\<close> have "pat = c # cs" by simp
        with False show False by simp
      qed
    qed
    with j Cons.IH [OF j(1)] show ?thesis by simp
  qed
qed

lemma js_split_not_Nil: "sep \<noteq> [] \<Longrightarrow> js_split sep s \<noteq> []"
  by (subst js_split.simps) (simp split: option.split)

lemma js_split_append:
  "sep \<noteq> [] \<Longrightarrow>
   js_split sep (x @ y) = butlast (js_split sep x) @ js_split sep (last (js_split sep x) @ y)"
proof (induction sep x rule: js_split.induct)
  case (1 sep s)
  show ?case
  proof (cases "indexOf sep s")
    case None
    with "1.prems" have "js_split sep s = [s]" by (subst js_split.simps) simp
    then show ?thesis by simp
  next
    case (Some i)
    with "1.prems" have s: "js_split sep s = take i s # js_split sep (drop (i + length sep) s)"
      by (subst js_split.simps) simp
    from Some have len: "i + length sep \<le> length s" by (rule indexOf_bound)
    from Some have "indexOf sep (s @ y) = Some i" by (rule indexOf_append)
    with "1.prems" have "js_split sep (s @ y) =
        take i (s @ y) # js_split sep (drop (i + length sep) (s @ y))"
      by (subst js_split.simps) simp
    also have "\<dots> = take i s # js_split sep (drop (i + length sep) s @ y)"
      using len by simp
    also have "js_split sep (drop (i + length sep) s @ y) =
        butlast (js_split sep (drop (i + length sep) s)) @
        js_split sep (last (js_split sep (drop (i + length sep) s)) @ y)"
      using "1.IH" [OF "1.prems" Some "1.prems"] .
    finally show ?thesis
      using s js_split_not_Nil [OF "1.prems", of "drop (i + length sep) s"] by simp
  qed
qed

lemma indexOf_last_split:
  "sep \<noteq> [] \<Longrightarrow> indexOf sep (last (js_split sep s)) = None"
proof (induction sep s rule: js_split.induct)
  case (1 sep s)
  show ?case
  proof (cases "indexOf sep s")
    case None
    with "1.prems" show ?thesis by (subst js_split.simps) simp
  next
    case (Some i)
    with "1.prems" have "js_split sep s = take i s # js_split sep (drop (i + length sep) s)"
      by (subst js_split.simps) simp
    with "1.IH" [OF "1.prems" Some "1.prems"] js_split_not_Nil [OF "1.prems"]
    show ?thesis by simp
  qed
qed

lemma stdin_loop_eq:
  "stdin_loop rt st tr =
     (st\<lparr>inputBuffer := last (js_split [NL] (inputBuffer st))\<rparr>,
      foldl (unbuffered_line rt (postUrl st)) tr (butlast (js_split [NL] (inputBuffer st))))"
proof (induction rt st tr rule: stdin_loop.induct)
  case (1 rt st tr)
  show ?case
  proof (cases "indexOf [NL] (inputBuffer st)")
    case None
    then have "js_split [NL] (inputBuffer st) = [inputBuffer st]"
      by (subst js_split.simps) simp
    with None show ?thesis by (subst stdin_loop.simps) simp
  next
    case (Some i)
    define st' where "st' = st\<lparr>inputBuffer := drop (i + 1) (inputBuffer st)\<rparr>"
    define line where "line = take i (inputBuffer st)"
    have split: "js_split [NL] (inputBuffer st) = line # js_split [NL] (inputBuffer st')"
      using Some by (subst js_split.simps) (simp add: st'_def line_def)
    have ne: "js_split [NL] (inputBuffer st') \<noteq> []"
      by (rule js_split_not_Nil) simp
    have url: "postUrl st' = postUrl st" and upd: "\<And>b. st'\<lparr>inputBuffer := b\<rparr> = st\<lparr>inputBuffer := b\<rparr>"
      by (simp_all add: st'_def)
    show ?thesis
    proof (cases "js_trim line \<noteq> []")
      case True
      then have ul: "unbuffered_line rt (postUrl st) tr line =
          tr @ forward rt (length (posts tr)) (postUrl st) line"
        by (simp add: unbuffered_line_def)
      have "stdin_loop rt st tr =
          stdin_loop rt st' (tr @ forward rt (length (posts tr)) (postUrl st') line)"
        using Some True by (subst stdin_loop.simps) (simp add: st'_def line_def Let_def)
      also have "\<dots> = (st'\<lparr>inputBuffer := last (js_split [NL] (inputBuffer st'))\<rparr>,
          foldl (unbuffered_line rt (postUrl st'))
            (tr @ forward rt (length (posts tr)) (postUrl st') line)
            (butlast (js_split [NL] (inputBuffer st'))))"
        using "1.IH"(1) [OF Some line_def st'_def] True by simp
      finally show ?thesis
        using ne by (simp add: split url upd ul)
    next
      case False
      then have ul: "unbuffered_line rt (postUrl st) tr line = tr"
        by (simp add: unbuffered_line_def)
      have "stdin_loop rt st tr = stdin_loop rt st' tr"
        using Some False by (subst stdin_loop.simps) (simp add: st'_def line_def Let_def)
      also have "\<dots> = (st'\<lparr>inputBuffer := last (js_split [NL] (inputBuffer st'))\<rparr>,
          foldl (unbuffered_line rt (postUrl st')) tr (butlast (js_split [NL] (inputBuffer st'))))"
        using "1.IH"(2) [OF Some line_def st'_def] False by simp
      finally show ?thesis
        using ne by (simp add: split url upd ul)
    qed
  qed
qed

lemma stdin_run_eq:
  "stdin_run rt (st, tr) chunks =
     (st\<lparr>inputBuffer := last (js_split [NL] (inputBuffer st @ concat (map toString chunks)))\<rparr>,
      foldl (unbuffered_line rt (postUrl st)) tr
        (butlast (js_split [NL] (inputBuffer st @ concat (map toString chunks)))))"
  if "indexOf [NL] (inputBuffer st) = None"
  using that
proof (induction chunks arbitrary: st tr)
  case Nil
  then have "js_split [NL] (inputBuffer st) = [inputBuffer st]"
    by (subst js_split.simps) simp
  then show ?case by (simp add: stdin_run_def)
next
  case (Cons c cs)
  define b where "b = inputBuffer st @ toString c"
  define st1 where "st1 = st\<lparr>inputBuffer := last (js_split [NL] b)\<rparr>"
  define tr1 where "tr1 = foldl (unbuffered_line rt (postUrl st)) tr (butlast (js_split [NL] b))"
  have step: "stdin_on_data rt (st, tr) c = (st1, tr1)"
    by (simp add: stdin_on_data_def stdin_loop_eq st1_def tr1_def b_def)
  have none: "indexOf [NL] (inputBuffer st1) = None"
    by (simp add: st1_def indexOf_last_split)
  define pieces where "pieces = js_split [NL] (inputBuffer st @ concat (map toString (c # cs)))"
  define pieces1 where "pieces1 = js_split [NL] (inputBuffer st1 @ concat (map toString cs))"
  have app: "pieces = butlast (js_split [NL] b) @ pieces1"
    using js_split_append [of "[NL]" b "concat (map toString cs)"]
    by (simp add: st1_def b_def pieces_def pieces1_def)
  have ne: "pieces1 \<noteq> []"
    unfolding pieces1_def by (rule js_split_not_Nil) simp
  from app ne have l: "last pieces = last pieces1"
    and bl: "butlast pieces = butlast (js_split [NL] b) @ butlast pieces1"
    by (simp_all add: butlast_append)
  have "stdin_run rt (st, tr) (c # cs) = stdin_run rt (st1, tr1) cs"
    by (simp add: stdin_run_def step)
  also have "\<dots> = (st1\<lparr>inputBuffer := last pieces1\<rparr>,
      foldl (unbuffered_line rt (postUrl st1)) tr1 (butlast pieces1))"
    unfolding pieces1_def by (rule Cons.IH [OF none])
  also have "\<dots> = (st\<lparr>inputBuffer := last pieces\<rparr>,
      foldl (unbuffered_line rt (postUrl st)) tr (butlast pieces))"
    by (simp add: l bl st1_def tr1_def)
  finally show ?case
    unfolding pieces_def .
qed

section \<open>The trace of the line framer\<close>

lemma posts_append: "posts (a @ b) = posts a @ posts b"
  by (simp add: posts_def)

lemma posts_forward: "posts (forward rt n url line) = [Post url line]"
  by (simp add: posts_def forward_def settle_def split: post_outcome.split)

lemma foldl_unbuffered_line:
  "foldl (unbuffered_line rt url) tr ls =
     tr @ blocks rt url (length (posts tr)) (filter (\<lambda>l. js_trim l \<noteq> []) ls)"
proof (induction ls arbitrary: tr)
  case Nil
  show ?case by simp
next
  case (Cons l ls)
  show ?case
  proof (cases "js_trim l \<noteq> []")
    case True
    then have "unbuffered_line rt url tr l = tr @ forward rt (length (posts tr)) url l"
      by (simp add: unbuffered_line_def)
    with True show ?thesis
      by (simp add: Cons.IH posts_append posts_forward)
  next
    case False
    then have "unbuffered_line rt url tr l = tr"
      by (simp add: unbuffered_line_def)
    with False show ?thesis
      by (simp add: Cons.IH)
  qed
qed

lemma posts_blocks: "posts (blocks rt url n ls) = map (Post url) ls"
  by (induction ls arbitrary: n) (simp_all add: posts_append posts_forward, simp add: posts_def)

lemma indexOf_NL_None: "NL \<notin> set l \<Longrightarrow> indexOf [NL] l = None"
  by (induction l) auto

lemma indexOf_NL_Some: "NL \<notin> set l \<Longrightarrow> indexOf [NL] (l @ NL # t) = Some (length l)"
  by (induction l) auto

lemma js_split_segments:
  assumes "sep \<noteq> []" and "\<forall>b \<in> set bs. indexOf sep (b @ sep) = Some (length b)"
  shows "js_split sep (concat (map (\<lambda>b. b @ sep) bs) @ rest) = bs @ js_split sep rest"
  using assms(2)
proof (induction bs)
  case Nil
  show ?case by simp
next
  case (Cons b bs)
  then have "indexOf sep (b @ sep) = Some (length b)" by simp
  then have "indexOf sep ((b @ sep) @ concat (map (\<lambda>b. b @ sep) bs) @ rest) = Some (length b)"
    by (rule indexOf_append)
  then have "js_split sep (concat (map (\<lambda>b. b @ sep) (b # bs)) @ rest) =
      b # js_split sep (concat (map (\<lambda>b. b @ sep) bs) @ rest)"
    using assms(1) by (subst js_split.simps) simp
  with Cons show ?case by simp
qed

lemma js_split_lines:
  assumes "\<forall>l \<in> set ls. NL \<notin> set l" and "NL \<notin> set rest"
  shows "js_split [NL] (concat (map (\<lambda>l. l @ [NL]) ls) @ rest) = ls @ [rest]"
proof -
  have "js_split [NL] rest = [rest]"
    using assms(2) by (subst js_split.simps) (simp add: indexOf_NL_None)
  moreover have "\<forall>l \<in> set ls. indexOf [NL] (l @ [NL]) = Some (length l)"
    using assms(1) by (simp add: indexOf_NL_Some)
  ultimately show ?thesis
    using js_split_segments [of "[NL]" ls rest] by simp
qed

text \<open>
  The line framer on decoded text: whatever the chunks, the trace is the blocks of the
  non-blank newline-terminated lines of the decoded input, and the rest stays buffered.
\<close>

lemma stdin_run_lines:
  assumes "inputBuffer st = []"
    and "concat (map toString chunks) = concat (map (\<lambda>l. l @ [NL]) ls) @ rest"
    and "\<forall>l \<in> set ls. NL \<notin> set l" and "NL \<notin> set rest"
  shows "stdin_run rt (st, tr) chunks =
     (st\<lparr>inputBuffer := rest\<rparr>,
      tr @ blocks rt (postUrl st) (length (posts tr)) (filter (\<lambda>l. js_trim l \<noteq> []) ls))"
proof -
  have "indexOf [NL] (inputBuffer st) = None"
    using assms(1) by simp
  then show ?thesis
    using assms by (simp add: stdin_run_eq js_split_lines foldl_unbuffered_line)
qed

section \<open>Trimming\<close>

lemma js_whitespace_prefix_free:
  "\<forall>v \<in> set js_whitespace. \<forall>w \<in> set js_whitespace. prefix v w \<longrightarrow> v = w"
  by (simp add: js_whitespace_def)

lemma find_whitespace_prefix:
  assumes "w \<in> set js_whitespace"
  shows "find (\<lambda>v. prefix v (w @ s)) js_whitespace = Some w"
proof (cases "find (\<lambda>v. prefix v (w @ s)) js_whitespace")
  case None
  with assms show ?thesis by (auto simp: find_None_iff)
next
  case (Some v)
  then have v: "v \<in> set js_whitespace" and pv: "prefix v (w @ s)"
    by (auto dest: find_SomeD)
  have "prefix w (w @ s)" by simp
  with pv have "prefix v w \<or> prefix w v"
    by (rule prefix_same_cases)
  with v assms js_whitespace_prefix_free have "v = w" by blast
  with Some show ?thesis by simp
qed

lemma find_NoneI: "(\<And>x. x \<in> set xs \<Longrightarrow> \<not> P x) \<Longrightarrow> find P xs = None"
  by (induction xs) auto

lemma trimStart_no_lead:
  assumes "s \<noteq> []" and "hd s \<notin> hd ` set js_whitespace"
  shows "trimStart s = s"
proof -
  have "find (\<lambda>w. prefix w s) js_whitespace = None"
  proof (rule find_NoneI)
    fix w assume w: "w \<in> set js_whitespace"
    show "\<not> prefix w s"
    proof
      assume "prefix w s"
      moreover from w have "w \<noteq> []" by (rule js_whitespace_nonempty)
      ultimately have "hd s = hd w" by (auto simp: prefix_def)
      with w assms(2) show False by auto
    qed
  qed
  then show ?thesis by (subst trimStart.simps) simp
qed

lemma trimEnd_no_lead:
  "s \<noteq> [] \<Longrightarrow> hd s \<notin> hd ` set js_whitespace \<Longrightarrow> trimEnd s \<noteq> []"
proof (induction s rule: trimEnd.induct)
  case (1 s)
  show ?case
  proof (cases "find (\<lambda>w. suffix w s) js_whitespace")
    case None
    with "1.prems" show ?thesis by (subst trimEnd.simps) simp
  next
    case (Some w)
    then have w: "w \<in> set js_whitespace" and suf: "suffix w s"
      by (auto dest: find_SomeD)
    from suf obtain t where s: "s = t @ w" by (auto simp: suffix_def)
    have "t \<noteq> []"
    proof
      assume "t = []"
      with s w "1.prems"(2) show False by auto
    qed
    with s have "take (length s - length w) s = t" and "hd t = hd s" by simp_all
    with "1.IH" [OF Some] \<open>t \<noteq> []\<close> "1.prems"(2)
    have "trimEnd t \<noteq> []" by simp
    with Some \<open>take (length s - length w) s = t\<close> show ?thesis
      by (subst trimEnd.simps) simp
  qed
qed

lemma js_trim_nonblank:
  "s \<noteq> [] \<Longrightarrow> hd s \<notin> hd ` set js_whitespace \<Longrightarrow> js_trim s \<noteq> []"
  by (simp add: js_trim_def trimStart_no_lead trimEnd_no_lead)

lemma js_trim_id:
  "find (\<lambda>w. prefix w s) js_whitespace = None \<Longrightarrow>
   find (\<lambda>w. suffix w s) js_whitespace = None \<Longrightarrow> js_trim s = s"
proof -
  assume p: "find (\<lambda>w. prefix w s) js_whitespace = None"
    and e: "find (\<lambda>w. suffix w s) js_whitespace = None"
  from p have "trimStart s = s" by (subst trimStart.simps) simp
  moreover from e have "trimEnd s = s" by (subst trimEnd.simps) simp
  ultimately show ?thesis by (simp add: js_trim_def)
qed

lemma trimStart_Nil: "trimStart [] = []"
  by (subst trimStart.simps) (simp add: js_whitespace_def)

lemma trimEnd_Nil: "trimEnd [] = []"
  by (subst trimEnd.simps) (simp add: js_whitespace_def)

lemma js_trim_Nil: "js_trim [] = []"
  by (simp add: js_trim_def trimStart_Nil trimEnd_Nil)

lemma trimStart_whitespace:
  "w \<in> set js_whitespace \<Longrightarrow> trimStart (w @ s) = trimStart s"
  by (subst trimStart.simps) (simp add: find_whitespace_prefix)

lemma whitespace_only_trim: "whitespace_only s \<Longrightarrow> js_trim s = []"
proof -
  assume "whitespace_only s"
  then have "trimStart s = []"
    by induction (simp_all add: trimStart_Nil trimStart_whitespace)
  then show ?thesis by (simp add: js_trim_def trimEnd_Nil)
qed

lemma blocks_append:
  "blocks rt url n (xs @ ys) = blocks rt url n xs @ blocks rt url (n + length xs) ys"
  by (induction xs arbitrary: n) simp_all

section \<open>The read loop and the lines of an event\<close>

lemma sse_reads_eq:
  assumes "indexOf [NL, NL] buf = None"
  shows "foldl (sse_read rt sseUrl) (buf, st, tr) chunks =
     (last (js_split [NL, NL] (buf @ concat chunks)),
      foldl (sse_event rt sseUrl) (st, tr) (butlast (js_split [NL, NL] (buf @ concat chunks))))"
  using assms
proof (induction chunks arbitrary: buf st tr)
  case Nil
  then have "js_split [NL, NL] buf = [buf]"
    by (subst js_split.simps) simp
  then show ?case by simp
next
  case (Cons c cs)
  define b where "b = buf @ c"
  define buf1 where "buf1 = last (js_split [NL, NL] b)"
  define w1 where "w1 = foldl (sse_event rt sseUrl) (st, tr) (butlast (js_split [NL, NL] b))"
  have step: "sse_read rt sseUrl (buf, st, tr) c = (buf1, w1)"
    by (simp add: sse_read_def event_framer_def buf1_def w1_def b_def Let_def)
  have none: "indexOf [NL, NL] buf1 = None"
    by (simp add: buf1_def indexOf_last_split)
  define pieces where "pieces = js_split [NL, NL] (buf @ concat (c # cs))"
  define pieces1 where "pieces1 = js_split [NL, NL] (buf1 @ concat cs)"
  have app: "pieces = butlast (js_split [NL, NL] b) @ pieces1"
    using js_split_append [of "[NL, NL]" b "concat cs"]
    by (simp add: buf1_def b_def pieces_def pieces1_def)
  have ne: "pieces1 \<noteq> []"
    unfolding pieces1_def by (rule js_split_not_Nil) simp
  from app ne have l: "last pieces = last pieces1"
    and bl: "butlast pieces = butlast (js_split [NL, NL] b) @ butlast pieces1"
    by (simp_all add: butlast_append)
  obtain st1 tr1 where w1: "w1 = (st1, tr1)" by (cases w1)
  have "foldl (sse_read rt sseUrl) (buf, st, tr) (c # cs) =
      foldl (sse_read rt sseUrl) (buf1, st1, tr1) cs"
    by (simp add: step w1)
  also have "\<dots> = (last pieces1, foldl (sse_event rt sseUrl) (st1, tr1) (butlast pieces1))"
    unfolding pieces1_def by (rule Cons.IH [OF none])
  also have "\<dots> = (last pieces, foldl (sse_event rt sseUrl) (st, tr) (butlast pieces))"
    by (simp add: l bl w1 [symmetric] w1_def)
  finally show ?case
    unfolding pieces_def .
qed

lemma indexOf_blank_None: "\<not> has_blank_line s \<Longrightarrow> indexOf [NL, NL] s = None"
  by (induction s rule: has_blank_line.induct) auto

lemma indexOf_block: "is_block b \<Longrightarrow> indexOf [NL, NL] (b @ [NL, NL]) = Some (length b)"
  unfolding is_block_def
proof (induction b)
  case Nil
  show ?case by simp
next
  case (Cons c cs)
  obtain x xs where x: "cs @ [NL] = x # xs" by (cases "cs @ [NL]") auto
  with Cons.prems have 1: "\<not> (c = NL \<and> x = NL)" and 2: "\<not> has_blank_line (cs @ [NL])"
    by auto
  from x have "\<exists>ys. cs @ [NL, NL] = x # ys"
    by (cases cs) auto
  with 1 have "\<not> prefix [NL, NL] (c # cs @ [NL, NL])" by auto
  with Cons.IH [OF 2] show ?case by simp
qed

lemma js_split_blocks:
  assumes "\<forall>b \<in> set bs. is_block b" and "\<not> has_blank_line rest"
  shows "js_split [NL, NL] (concat (map (\<lambda>b. b @ [NL, NL]) bs) @ rest) = bs @ [rest]"
proof -
  have "js_split [NL, NL] rest = [rest]"
    using assms(2) by (subst js_split.simps) (simp add: indexOf_blank_None)
  moreover have "\<forall>b \<in> set bs. indexOf [NL, NL] (b @ [NL, NL]) = Some (length b)"
    using assms(1) by (simp add: indexOf_block)
  ultimately show ?thesis
    using js_split_segments [of "[NL, NL]" bs rest] by simp
qed

lemma sse_line_event:
  "sse_line rt sseUrl (f, st, tr) (''event: '' @ n) =
     ((if js_trim n = ''endpoint'' then True else f), st, tr)"
  by (simp add: startsWith_def)

lemma sse_line_data:
  "sse_line rt sseUrl (f, st, tr) (''data: '' @ d) =
     (if f then (case endpoint_target rt sseUrl d of
                   Some u \<Rightarrow> (False, st\<lparr>postUrl := u\<rparr>, tr)
                 | None \<Rightarrow> (True, st, relay rt d tr))
      else (False, st, relay rt d tr))"
  by (cases f) (simp_all add: startsWith_def split: option.split)

lemma js_split_one: "NL \<notin> set l \<Longrightarrow> js_split [NL] l = [l]"
  using js_split_lines [of "[]" l] by simp

lemma js_split_two:
  "NL \<notin> set a \<Longrightarrow> NL \<notin> set b \<Longrightarrow> js_split [NL] (a @ [NL] @ b) = [a, b]"
  using js_split_lines [of "[a]" b] by simp

lemma sse_event_data:
  "NL \<notin> set d \<Longrightarrow> sse_event rt sseUrl (st, tr) (''data: '' @ d) = (st, relay rt d tr)"
proof -
  assume d: "NL \<notin> set d"
  then have "NL \<notin> set (''data: '' @ d)" by (simp add: NL_def)
  then have split: "js_split [NL] (''data: '' @ d) = [''data: '' @ d]" by (rule js_split_one)
  have "sse_event rt sseUrl (st, tr) (''data: '' @ d) =
      snd (sse_line rt sseUrl (False, st, tr) (''data: '' @ d))"
    unfolding sse_event_def split by (simp only: prod.case foldl.simps)
  also have "\<dots> = (st, relay rt d tr)"
    by (simp only: sse_line_data if_False snd_conv)
  finally show ?thesis .
qed

lemma sse_event_named:
  assumes "NL \<notin> set n" and "NL \<notin> set d"
  shows "sse_event rt sseUrl (st, tr) (''event: '' @ n @ [NL] @ ''data: '' @ d) =
     (if js_trim n = ''endpoint'' then
        (case endpoint_target rt sseUrl d of
           Some u \<Rightarrow> (st\<lparr>postUrl := u\<rparr>, tr)
         | None \<Rightarrow> (st, relay rt d tr))
      else (st, relay rt d tr))"
proof -
  from assms have "NL \<notin> set (''event: '' @ n)" and "NL \<notin> set (''data: '' @ d)"
    by (simp_all add: NL_def)
  then have "js_split [NL] ((''event: '' @ n) @ [NL] @ (''data: '' @ d)) =
      [''event: '' @ n, ''data: '' @ d]"
    by (rule js_split_two)
  then have split: "js_split [NL] (''event: '' @ n @ [NL] @ ''data: '' @ d) =
      [''event: '' @ n, ''data: '' @ d]"
    by (simp only: append_assoc)
  have "sse_event rt sseUrl (st, tr) (''event: '' @ n @ [NL] @ ''data: '' @ d) =
      snd (sse_line rt sseUrl (sse_line rt sseUrl (False, st, tr) (''event: '' @ n))
             (''data: '' @ d))"
    unfolding sse_event_def split by (simp only: prod.case foldl.simps)
  also have "\<dots> = (if js_trim n = ''endpoint'' then
        (case endpoint_target rt sseUrl d of
           Some u \<Rightarrow> (st\<lparr>postUrl := u\<rparr>, tr)
         | None \<Rightarrow> (st, relay rt d tr))
      else (st, relay rt d tr))"
    unfolding sse_line_event sse_line_data by (simp split: option.split)
  finally show ?thesis .
qed

text \<open>The block of an event is a block of the stream.\<close>

lemma no_newline_no_blank_line:
  "NL \<notin> set a \<Longrightarrow> has_blank_line (a @ c # s) = has_blank_line (c # s)"
proof (induction a)
  case Nil
  show ?case by simp
next
  case (Cons x xs)
  from Cons.prems have "x \<noteq> NL" and "NL \<notin> set xs" by auto
  from Cons.IH [OF this(2)] have IH: "has_blank_line (xs @ c # s) = has_blank_line (c # s)" .
  obtain y ys where y: "xs @ c # s = y # ys" by (cases "xs @ c # s") auto
  with \<open>x \<noteq> NL\<close> have "has_blank_line (x # xs @ c # s) = has_blank_line (xs @ c # s)" by simp
  with IH show ?case by simp
qed

lemma event_block_is_block: "fields_ok e \<Longrightarrow> is_block (event_block e)"
proof (cases e)
  case (Pair name d)
  assume ok: "fields_ok e"
  show ?thesis
  proof (cases name)
    case None
    with ok Pair have "NL \<notin> set (''data: '' @ d)" by (simp add: NL_def)
    from no_newline_no_blank_line [OF this, of NL "[]"] show ?thesis
      by (simp add: is_block_def Pair None)
  next
    case (Some n)
    with ok Pair have n: "NL \<notin> set (''event: '' @ n)" and d: "NL \<notin> set (''data: '' @ d)"
      by (simp_all add: NL_def)
    have "has_blank_line ((''event: '' @ n) @ NL # (''data: '' @ d) @ [NL]) =
        has_blank_line (NL # (''data: '' @ d) @ [NL])"
      using n by (rule no_newline_no_blank_line)
    also have "\<dots> = has_blank_line ((''data: '' @ d) @ [NL])"
      by (simp add: NL_def)
    also have "\<dots> = False"
      using no_newline_no_blank_line [OF d, of NL "[]"] by simp
    finally show ?thesis
      by (simp add: is_block_def Pair Some)
  qed
qed

section \<open>What the handlers write\<close>

lemma posts_trace_blocks: "posts (tr @ blocks rt url n ls) = posts tr @ map (Post url) ls"
  by (simp add: posts_append posts_blocks)

text \<open>The relay without a buffer handles every piece of every chunk as a line.\<close>

lemma unbuffered_on_data_eq:
  "unbuffered_on_data rt url tr chunk =
     tr @ blocks rt url (length (posts tr))
            (filter (\<lambda>l. js_trim l \<noteq> []) (js_split [NL] (toString chunk)))"
  by (simp add: unbuffered_on_data_def foldl_unbuffered_line)

lemma unbuffered_run_eq:
  "unbuffered_run rt url tr chunks =
     tr @ blocks rt url (length (posts tr))
            (filter (\<lambda>l. js_trim l \<noteq> []) (concat (map (\<lambda>c. js_split [NL] (toString c)) chunks)))"
proof (induction chunks arbitrary: tr)
  case Nil
  show ?case by (simp add: unbuffered_run_def)
next
  case (Cons c cs)
  have "unbuffered_run rt url tr (c # cs) = unbuffered_run rt url (unbuffered_on_data rt url tr c) cs"
    by (simp add: unbuffered_run_def)
  then show ?case
    by (simp add: Cons.IH unbuffered_on_data_eq posts_trace_blocks blocks_append)
qed

lemma framer_feeds_eq:
  assumes "indexOf [NL, NL] buf = None"
  shows "foldl framer_feed (buf, ys) chunks =
     (last (js_split [NL, NL] (buf @ concat chunks)),
      ys @ butlast (js_split [NL, NL] (buf @ concat chunks)))"
  using assms
proof (induction chunks arbitrary: buf ys)
  case Nil
  then have "js_split [NL, NL] buf = [buf]"
    by (subst js_split.simps) simp
  then show ?case by simp
next
  case (Cons c cs)
  define b where "b = buf @ c"
  define buf1 where "buf1 = last (js_split [NL, NL] b)"
  have step: "framer_feed (buf, ys) c = (buf1, ys @ butlast (js_split [NL, NL] b))"
    by (simp add: framer_feed_def event_framer_def buf1_def b_def Let_def)
  have none: "indexOf [NL, NL] buf1 = None"
    by (simp add: buf1_def indexOf_last_split)
  define pieces where "pieces = js_split [NL, NL] (buf @ concat (c # cs))"
  define pieces1 where "pieces1 = js_split [NL, NL] (buf1 @ concat cs)"
  have app: "pieces = butlast (js_split [NL, NL] b) @ pieces1"
    using js_split_append [of "[NL, NL]" b "concat cs"]
    by (simp add: buf1_def b_def pieces_def pieces1_def)
  have ne: "pieces1 \<noteq> []"
    unfolding pieces1_def by (rule js_split_not_Nil) simp
  from app ne have l: "last pieces = last pieces1"
    and bl: "butlast pieces = butlast (js_split [NL, NL] b) @ butlast pieces1"
    by (simp_all add: butlast_append)
  have "foldl framer_feed (buf, ys) (c # cs) =
      foldl framer_feed (buf1, ys @ butlast (js_split [NL, NL] b)) cs"
    by (simp add: step)
  also have "\<dots> = (last pieces1, (ys @ butlast (js_split [NL, NL] b)) @ butlast pieces1)"
    unfolding pieces1_def by (rule Cons.IH [OF none])
  also have "\<dots> = (last pieces, ys @ butlast pieces)"
    by (simp add: l bl)
  finally show ?case
    unfolding pieces_def .
qed

lemma relay_eq: "relay rt d tr = (if suppressed rt d then tr else tr @ [Stdout (d @ [NL])])"
proof (cases "json_parse rt d")
  case None
  then show ?thesis by (simp add: relay_def suppressed_def)
next
  case (Some j)
  show ?thesis
  proof (cases j)
    case (JObject props)
    show ?thesis
    proof (cases "map_of props ''method''")
      case None
      with Some JObject show ?thesis
        by (simp add: relay_def suppressed_def method_of_def)
    next
      case (Some v)
      with \<open>json_parse rt d = Some j\<close> JObject show ?thesis
        by (cases v) (auto simp: relay_def suppressed_def method_of_def)
    qed
  qed (use Some in \<open>simp_all add: relay_def suppressed_def method_of_def\<close>)
qed

lemma indexOf_NL_take: "indexOf [NL] s = Some i \<Longrightarrow> NL \<notin> set (take i s)"
proof (induction s arbitrary: i)
  case Nil
  then show ?case by simp
next
  case (Cons c cs)
  then show ?case by (cases "c = NL") auto
qed

lemma indexOf_NL_None_set: "indexOf [NL] s = None \<Longrightarrow> NL \<notin> set s"
  by (induction s) (auto split: if_splits)

lemma js_split_NL_free: "l \<in> set (js_split [NL] s) \<Longrightarrow> NL \<notin> set l"
proof (induction "[NL]" s rule: js_split.induct)
  case (1 s)
  show ?case
  proof (cases "indexOf [NL] s")
    case None
    then have "js_split [NL] s = [s]" by (subst js_split.simps) simp
    with "1.prems" None show ?thesis by (simp add: indexOf_NL_None_set)
  next
    case (Some i)
    then have "js_split [NL] s = take i s # js_split [NL] (drop (i + length [NL]) s)"
      by (subst js_split.simps) simp
    with "1.prems" consider "l = take i s" | "l \<in> set (js_split [NL] (drop (i + length [NL]) s))"
      by auto
    then show ?thesis
    proof cases
      case 1
      with Some show ?thesis by (simp add: indexOf_NL_take)
    next
      case 2
      with "1.hyps" Some show ?thesis by simp
    qed
  qed
qed

lemma relay_cases: "relay rt d tr = tr \<or> relay rt d tr = tr @ [Stdout (d @ [NL])]"
  by (simp add: relay_eq)

lemma sse_line_writes:
  assumes "NL \<notin> set line"
  shows "\<exists>out. snd (snd (sse_line rt sseUrl (f, st, tr) line)) = tr @ out
           \<and> (\<forall>e \<in> set out. is_line_write e)"
proof -
  have w: "is_line_write (Stdout (drop 6 line @ [NL]))"
    using assms by (auto dest: in_set_dropD)
  have r: "\<exists>out. relay rt (drop 6 line) tr = tr @ out \<and> (\<forall>e \<in> set out. is_line_write e)"
  proof (cases "relay rt (drop 6 line) tr = tr")
    case True
    then have "relay rt (drop 6 line) tr = tr @ [] \<and> (\<forall>e \<in> set []. is_line_write e)" by simp
    then show ?thesis by blast
  next
    case False
    with relay_cases [of rt "drop 6 line" tr]
    have "relay rt (drop 6 line) tr = tr @ [Stdout (drop 6 line @ [NL])]" by simp
    with w have "relay rt (drop 6 line) tr = tr @ [Stdout (drop 6 line @ [NL])]
        \<and> (\<forall>e \<in> set [Stdout (drop 6 line @ [NL])]. is_line_write e)"
      by simp
    then show ?thesis by blast
  qed
  have same: "\<exists>out. tr = tr @ out \<and> (\<forall>e \<in> set out. is_line_write e)"
    by (rule exI [of _ "[]"]) simp
  show ?thesis
    using r same by (auto simp: Let_def split: option.split)
qed

lemma sse_lines_write:
  assumes "\<forall>l \<in> set ls. NL \<notin> set l"
  shows "\<exists>out. snd (snd (foldl (sse_line rt sseUrl) (f, st, tr) ls)) = tr @ out
           \<and> (\<forall>e \<in> set out. is_line_write e)"
  using assms
proof (induction ls arbitrary: f st tr)
  case Nil
  show ?case by (rule exI [of _ "[]"]) simp
next
  case (Cons l ls)
  obtain f1 st1 tr1 where step: "sse_line rt sseUrl (f, st, tr) l = (f1, st1, tr1)"
    by (cases "sse_line rt sseUrl (f, st, tr) l")
  from Cons.prems have "NL \<notin> set l" by simp
  from sse_line_writes [OF this, of rt sseUrl f st tr] step
  obtain out1 where o1: "tr1 = tr @ out1" "\<forall>e \<in> set out1. is_line_write e" by auto
  from Cons.prems have "\<forall>l \<in> set ls. NL \<notin> set l" by simp
  from Cons.IH [OF this, of f1 st1 tr1]
  obtain out2 where o2: "snd (snd (foldl (sse_line rt sseUrl) (f1, st1, tr1) ls)) = tr1 @ out2"
      "\<forall>e \<in> set out2. is_line_write e" by auto
  have "snd (snd (foldl (sse_line rt sseUrl) (f, st, tr) (l # ls))) = tr @ (out1 @ out2)"
    using o1(1) o2(1) by (simp add: step del: sse_line.simps)
  moreover have "\<forall>e \<in> set (out1 @ out2). is_line_write e"
    using o1(2) o2(2) by auto
  ultimately show ?case by blast
qed

lemma sse_event_writes:
  "\<exists>out. snd (sse_event rt sseUrl (st, tr) event) = tr @ out \<and> (\<forall>e \<in> set out. is_line_write e)"
proof -
  have "\<forall>l \<in> set (js_split [NL] event). NL \<notin> set l"
    by (simp add: js_split_NL_free)
  from sse_lines_write [OF this, of rt sseUrl False st tr]
  show ?thesis by (simp add: sse_event_def)
qed

text \<open>
  After a stream has ended with \<open>done\<close> the function has returned and no timer is set:
  however many responses the remote has ready, no further connection is made. After a
  rejected \<open>fetch\<close>, a status that is not a success, or a read that rejects, the timer of
  5000 ms is set and the next connection follows.
\<close>

lemma reconnect_RETURNED: "foldl (reconnect rt sseUrl) (st, tr, RETURNED) resps = (st, tr, RETURNED)"
  by (induction resps) (simp_all add: reconnect_def)

lemma connectSSE_done:
  "connectSSE rt sseUrl (st, tr) (ConnectResponse True status statusText (Body chunks StreamDone)) =
     (fst (snd (foldl (sse_read rt sseUrl) ([], st, tr @ [Get sseUrl]) chunks)),
      snd (snd (foldl (sse_read rt sseUrl) ([], st, tr @ [Get sseUrl]) chunks)),
      RETURNED)"
  by (simp add: connectSSE_def split: prod.split)

lemma connections_done:
  "connections rt sseUrl (st, tr) (ConnectResponse True status statusText (Body chunks StreamDone)) resps =
     connectSSE rt sseUrl (st, tr) (ConnectResponse True status statusText (Body chunks StreamDone))"
  unfolding connections_def connectSSE_done by (rule reconnect_RETURNED)

lemma connectSSE_failure_waits:
  "snd (snd (connectSSE rt sseUrl (st, tr) (ConnectRejects msg))) = WAITING 5000"
  "snd (snd (connectSSE rt sseUrl (st, tr) (ConnectResponse False status statusText body))) =
     WAITING 5000"
  "snd (snd (connectSSE rt sseUrl (st, tr) (ConnectResponse True status statusText NoBody))) =
     WAITING 5000"
  "snd (snd (connectSSE rt sseUrl (st, tr)
     (ConnectResponse True status statusText (Body chunks (StreamError msg))))) = WAITING 5000"
  by (simp_all add: connectSSE_def split: prod.split)

lemma connections_failure_reconnects:
  assumes "snd (snd (connectSSE rt sseUrl w resp)) = WAITING ms"
  shows "connections rt sseUrl w resp (resp' # resps) =
     connections rt sseUrl
       (fst (connectSSE rt sseUrl w resp), fst (snd (connectSSE rt sseUrl w resp))) resp' resps"
proof -
  obtain st' tr' s where c: "connectSSE rt sseUrl w resp = (st', tr', s)"
    by (cases "connectSSE rt sseUrl w resp")
  with assms show ?thesis
    by (simp add: connections_def reconnect_def)
qed

section \<open>Invariants of the reactive system\<close>

lemma bodies_append: "bodies (a @ b) = bodies a @ bodies b"
  by (simp add: bodies_def posts_append)

lemma bodies_settle: "bodies (settle outcome) = []"
  by (simp add: bodies_def posts_def settle_def split: post_outcome.split)

lemma pump_none: "indexOf [NL] (inputBuffer (state w)) = None \<Longrightarrow> pump w = w"
  by (subst pump.simps) simp

lemma pump_line:
  assumes "inputBuffer (state w) = l @ NL # rest" and "NL \<notin> set l" and "js_trim l \<noteq> []"
  shows "pump w = w\<lparr>state := (state w)\<lparr>inputBuffer := rest\<rparr>,
                    effects := effects w @ [Post (postUrl (state w)) l],
                    inflight := inflight w @ [(postUrl (state w), l)]\<rparr>"
proof -
  have "indexOf [NL] (inputBuffer (state w)) = Some (length l)"
    using assms(1,2) by (simp add: indexOf_NL_Some)
  then show ?thesis
    using assms(1,3) by (subst pump.simps) (simp add: Let_def)
qed

lemma pump_framing: "framing pre t w \<Longrightarrow> framing pre t (pump w)"
proof (induction w rule: pump.induct)
  case (1 w)
  show ?case
  proof (cases "indexOf [NL] (inputBuffer (state w))")
    case None
    then have "pump w = w" by (subst pump.simps) simp
    with "1.prems" show ?thesis by simp
  next
    case (Some i)
    define line where "line = take i (inputBuffer (state w))"
    define w' where "w' = w\<lparr>state := (state w)\<lparr>inputBuffer := drop (i + 1) (inputBuffer (state w))\<rparr>\<rparr>"
    have split: "js_split [NL] (inputBuffer (state w)) = line # js_split [NL] (inputBuffer (state w'))"
      using Some by (subst js_split.simps) (simp add: w'_def line_def)
    from "1.prems" obtain ls where ls: "js_split [NL] t = ls @ js_split [NL] (inputBuffer (state w))"
        "bodies (effects w) = pre @ filter (\<lambda>l. js_trim l \<noteq> []) ls"
      by (auto simp: framing_def)
    have ls': "js_split [NL] t = (ls @ [line]) @ js_split [NL] (inputBuffer (state w'))"
      using ls(1) split by simp
    show ?thesis
    proof (cases "js_trim line \<noteq> []")
      case True
      then have p: "pump w = w'\<lparr>effects := effects w' @ [Post (postUrl (state w')) line],
                      inflight := inflight w' @ [(postUrl (state w'), line)]\<rparr>"
        using Some by (subst pump.simps) (simp add: w'_def line_def Let_def)
      have "bodies (effects (pump w)) = pre @ filter (\<lambda>l. js_trim l \<noteq> []) (ls @ [line])"
        using True ls(2) by (simp add: p bodies_append w'_def) (simp add: bodies_def posts_def)
      moreover have "inputBuffer (state (pump w)) = inputBuffer (state w')"
        by (simp add: p)
      ultimately show ?thesis
        using ls' unfolding framing_def by metis
    next
      case False
      then have p: "pump w = pump w'"
        using Some by (subst pump.simps) (simp add: w'_def line_def Let_def)
      have "bodies (effects w') = pre @ filter (\<lambda>l. js_trim l \<noteq> []) (ls @ [line])"
        using False ls(2) by (simp add: w'_def)
      with ls' have "framing pre t w'" unfolding framing_def by metis
      with "1.IH" [OF Some line_def w'_def] False show ?thesis
        by (simp add: p)
    qed
  qed
qed

lemma pump_effects:
  "\<exists>p. effects (pump w) = effects w @ p \<and> (\<forall>e \<in> set p. is_post e)"
proof (induction w rule: pump.induct)
  case (1 w)
  show ?case
  proof (cases "indexOf [NL] (inputBuffer (state w))")
    case None
    then have "pump w = w" by (subst pump.simps) simp
    then have "effects (pump w) = effects w @ [] \<and> (\<forall>e \<in> set []. is_post e)" by simp
    then show ?thesis by blast
  next
    case (Some i)
    define line where "line = take i (inputBuffer (state w))"
    define w' where "w' = w\<lparr>state := (state w)\<lparr>inputBuffer := drop (i + 1) (inputBuffer (state w))\<rparr>\<rparr>"
    show ?thesis
    proof (cases "js_trim line \<noteq> []")
      case True
      then have "pump w = w'\<lparr>effects := effects w' @ [Post (postUrl (state w')) line],
                      inflight := inflight w' @ [(postUrl (state w'), line)]\<rparr>"
        using Some by (subst pump.simps) (simp add: w'_def line_def Let_def)
      then have "effects (pump w) = effects w @ [Post (postUrl (state w')) line]
          \<and> (\<forall>e \<in> set [Post (postUrl (state w')) line]. is_post e)"
        by (simp add: w'_def)
      then show ?thesis by blast
    next
      case False
      then have "pump w = pump w'"
        using Some by (subst pump.simps) (simp add: w'_def line_def Let_def)
      with "1.IH" [OF Some line_def w'_def] False show ?thesis
        by (simp add: w'_def)
    qed
  qed
qed

lemma pump_attended: "attended (pump w)"
proof (induction w rule: pump.induct)
  case (1 w)
  show ?case
  proof (cases "indexOf [NL] (inputBuffer (state w))")
    case None
    then have "pump w = w" by (subst pump.simps) simp
    with None show ?thesis by (simp add: attended_def)
  next
    case (Some i)
    define line where "line = take i (inputBuffer (state w))"
    define w' where "w' = w\<lparr>state := (state w)\<lparr>inputBuffer := drop (i + 1) (inputBuffer (state w))\<rparr>\<rparr>"
    show ?thesis
    proof (cases "js_trim line \<noteq> []")
      case True
      then have "pump w = w'\<lparr>effects := effects w' @ [Post (postUrl (state w')) line],
                      inflight := inflight w' @ [(postUrl (state w'), line)]\<rparr>"
        using Some by (subst pump.simps) (simp add: w'_def line_def Let_def)
      then show ?thesis by (simp add: attended_def)
    next
      case False
      then have "pump w = pump w'"
        using Some by (subst pump.simps) (simp add: w'_def line_def Let_def)
      with "1.IH" [OF Some line_def w'_def] False show ?thesis
        by simp
    qed
  qed
qed

lemma pump_url: "postUrl (state (pump w)) = postUrl (state w)"
proof (induction w rule: pump.induct)
  case (1 w)
  show ?case
  proof (cases "indexOf [NL] (inputBuffer (state w))")
    case None
    then show ?thesis by (simp add: pump_none)
  next
    case (Some i)
    define line where "line = take i (inputBuffer (state w))"
    define w' where "w' = w\<lparr>state := (state w)\<lparr>inputBuffer := drop (i + 1) (inputBuffer (state w))\<rparr>\<rparr>"
    show ?thesis
    proof (cases "js_trim line \<noteq> []")
      case True
      then have "pump w = w'\<lparr>effects := effects w' @ [Post (postUrl (state w')) line],
                      inflight := inflight w' @ [(postUrl (state w'), line)]\<rparr>"
        using Some by (subst pump.simps) (simp add: w'_def line_def Let_def)
      then show ?thesis by (simp add: w'_def)
    next
      case False
      then have "pump w = pump w'"
        using Some by (subst pump.simps) (simp add: w'_def line_def Let_def)
      with "1.IH" [OF Some line_def w'_def] False show ?thesis
        by (simp add: w'_def)
    qed
  qed
qed

lemma pump_posts_url:
  "\<exists>p. effects (pump w) = effects w @ p
        \<and> (\<forall>e \<in> set p. \<exists>b. e = Post (postUrl (state w)) b)"
proof (induction w rule: pump.induct)
  case (1 w)
  show ?case
  proof (cases "indexOf [NL] (inputBuffer (state w))")
    case None
    then have "effects (pump w) = effects w @ []
        \<and> (\<forall>e \<in> set []. \<exists>b. e = Post (postUrl (state w)) b)"
      by (simp add: pump_none)
    then show ?thesis by blast
  next
    case (Some i)
    define line where "line = take i (inputBuffer (state w))"
    define w' where "w' = w\<lparr>state := (state w)\<lparr>inputBuffer := drop (i + 1) (inputBuffer (state w))\<rparr>\<rparr>"
    show ?thesis
    proof (cases "js_trim line \<noteq> []")
      case True
      then have "pump w = w'\<lparr>effects := effects w' @ [Post (postUrl (state w')) line],
                      inflight := inflight w' @ [(postUrl (state w'), line)]\<rparr>"
        using Some by (subst pump.simps) (simp add: w'_def line_def Let_def)
      then have "effects (pump w) = effects w @ [Post (postUrl (state w)) line]
          \<and> (\<forall>e \<in> set [Post (postUrl (state w)) line]. \<exists>b. e = Post (postUrl (state w)) b)"
        by (simp add: w'_def)
      then show ?thesis by blast
    next
      case False
      then have "pump w = pump w'"
        using Some by (subst pump.simps) (simp add: w'_def line_def Let_def)
      with "1.IH" [OF Some line_def w'_def] False show ?thesis
        by (simp add: w'_def)
    qed
  qed
qed

lemma settle_not_post: "e \<in> set (settle outcome) \<Longrightarrow> \<not> is_post e"
  by (auto simp: settle_def split: post_outcome.splits if_splits)

lemma sse_line_buffer:
  "inputBuffer (fst (snd (sse_line rt sseUrl (f, st, tr) line))) = inputBuffer st"
  by (simp add: Let_def split: option.split)

lemma sse_lines_buffer:
  "inputBuffer (fst (snd (foldl (sse_line rt sseUrl) (f, st, tr) ls))) = inputBuffer st"
proof (induction ls arbitrary: f st tr)
  case Nil
  show ?case by simp
next
  case (Cons l ls)
  obtain f1 st1 tr1 where step: "sse_line rt sseUrl (f, st, tr) l = (f1, st1, tr1)"
    by (cases "sse_line rt sseUrl (f, st, tr) l")
  with sse_line_buffer [of rt sseUrl f st tr l] have "inputBuffer st1 = inputBuffer st"
    by simp
  with Cons.IH [of f1 st1 tr1] show ?case
    by (simp add: step del: sse_line.simps)
qed

lemma sse_event_buffer:
  "inputBuffer (fst (sse_event rt sseUrl (st, tr) event)) = inputBuffer st"
  using sse_lines_buffer [of rt sseUrl False st tr "js_split [NL] event"]
  by (simp add: sse_event_def)

lemma sse_event_bodies:
  "bodies (snd (sse_event rt sseUrl (st, tr) event)) = bodies tr"
proof -
  obtain out where out: "snd (sse_event rt sseUrl (st, tr) event) = tr @ out"
      "\<forall>e \<in> set out. is_line_write e"
    using sse_event_writes [of rt sseUrl st tr event] by blast
  have "posts out = []"
    unfolding posts_def filter_empty_conv
  proof
    fix e assume "e \<in> set out"
    with out(2) have "is_line_write e" by simp
    then show "\<not> is_post e" by (cases e) simp_all
  qed
  with out(1) show ?thesis by (simp add: bodies_def posts_append)
qed

lemma arrived_Nil: "arrived [] = []"
  by (simp add: arrived_def)

lemma arrived_Cons: "arrived (occ # occs) = arrival occ @ arrived occs"
  by (simp add: arrived_def)

lemma occurs_framing:
  assumes "framing pre t w"
  shows "framing pre (t @ arrival occ) (occurs rt sseUrl w occ)"
proof (cases occ)
  case (Arrives chunk)
  from assms obtain ls where ls: "js_split [NL] t = ls @ js_split [NL] (inputBuffer (state w))"
      "bodies (effects w) = pre @ filter (\<lambda>l. js_trim l \<noteq> []) ls"
    by (auto simp: framing_def)
  define S where "S = js_split [NL] (inputBuffer (state w))"
  have ne: "S \<noteq> []" unfolding S_def by (rule js_split_not_Nil) simp
  have "js_split [NL] (t @ toString chunk) =
      butlast (js_split [NL] t) @ js_split [NL] (last (js_split [NL] t) @ toString chunk)"
    by (rule js_split_append) simp
  also have "\<dots> = ls @ butlast S @ js_split [NL] (last S @ toString chunk)"
    using ls(1) ne by (simp add: S_def [symmetric] butlast_append)
  also have "butlast S @ js_split [NL] (last S @ toString chunk) =
      js_split [NL] (inputBuffer (state w) @ toString chunk)"
    unfolding S_def by (rule js_split_append [symmetric]) simp
  finally have "framing pre (t @ toString chunk)
      (w\<lparr>state := (state w)\<lparr>inputBuffer := inputBuffer (state w) @ toString chunk\<rparr>\<rparr>)"
    using ls(2) unfolding framing_def by auto
  then show ?thesis
    using Arrives by (simp add: occurs_def pump_framing)
next
  case (Completes i outcome)
  have "framing pre t (w\<lparr>effects := effects w @ settle outcome,
      inflight := take i (inflight w) @ drop (Suc i) (inflight w)\<rparr>)"
    using assms by (simp add: framing_def bodies_append bodies_settle)
  then show ?thesis
    using Completes assms by (simp add: occurs_def pump_framing)
next
  case (Listens event)
  obtain st tr where ev: "sse_event rt sseUrl (state w, effects w) event = (st, tr)"
    by (cases "sse_event rt sseUrl (state w, effects w) event")
  have "inputBuffer st = inputBuffer (state w)" and "bodies tr = bodies (effects w)"
    using sse_event_buffer [of rt sseUrl "state w" "effects w" event]
      sse_event_bodies [of rt sseUrl "state w" "effects w" event] ev by simp_all
  then show ?thesis
    using Listens assms by (simp add: occurs_def ev framing_def)
qed

lemma run_framing:
  "framing pre t w \<Longrightarrow> framing pre (t @ arrived occs) (foldl (occurs rt sseUrl) w occs)"
proof (induction occs arbitrary: t w)
  case Nil
  then show ?case by (simp add: arrived_Nil)
next
  case (Cons occ occs)
  from Cons.IH [OF occurs_framing [OF Cons.prems, of occ rt sseUrl]]
  show ?case by (simp add: arrived_Cons)
qed

lemma occurs_attended: "attended w \<Longrightarrow> attended (occurs rt sseUrl w occ)"
proof (cases occ)
  case (Arrives chunk)
  then show ?thesis by (simp add: occurs_def pump_attended)
next
  case (Completes i outcome)
  assume "attended w"
  with Completes show ?thesis by (simp add: occurs_def pump_attended)
next
  case (Listens event)
  assume q: "attended w"
  obtain st tr where ev: "sse_event rt sseUrl (state w, effects w) event = (st, tr)"
    by (cases "sse_event rt sseUrl (state w, effects w) event")
  have "inputBuffer st = inputBuffer (state w)"
    using sse_event_buffer [of rt sseUrl "state w" "effects w" event] ev by simp
  with q Listens show ?thesis by (simp add: occurs_def ev attended_def)
qed

lemma run_attended: "attended w \<Longrightarrow> attended (foldl (occurs rt sseUrl) w occs)"
  by (induction occs arbitrary: w) (simp_all add: occurs_attended)

lemma framing_lines:
  assumes "framing pre t w"
  shows "bodies (effects w) @ complete_lines (inputBuffer (state w)) = pre @ complete_lines t"
proof -
  from assms obtain ls where ls: "js_split [NL] t = ls @ js_split [NL] (inputBuffer (state w))"
      "bodies (effects w) = pre @ filter (\<lambda>l. js_trim l \<noteq> []) ls"
    by (auto simp: framing_def)
  have "js_split [NL] (inputBuffer (state w)) \<noteq> []"
    by (rule js_split_not_Nil) simp
  with ls show ?thesis
    by (simp add: complete_lines_def butlast_append)
qed

lemma complete_lines_none: "indexOf [NL] s = None \<Longrightarrow> complete_lines s = []"
  by (subst complete_lines_def, subst js_split.simps) simp

lemma complete_lines_lines:
  assumes "\<forall>l \<in> set ls. NL \<notin> set l" and "NL \<notin> set rest"
  shows "complete_lines (concat (map (\<lambda>l. l @ [NL]) ls) @ rest) =
     filter (\<lambda>l. js_trim l \<noteq> []) ls"
  by (simp add: complete_lines_def js_split_lines [OF assms])

text \<open>
  Whatever the order of arrivals, completions and events: the bodies POSTed so far,
  followed by the complete lines still in the buffer, are the complete lines of the text
  that has arrived; and when no POST is in flight, all of them have been POSTed.
\<close>

lemma run_bodies:
  fixes rt :: runtime and sseUrl :: string and st :: bridge and tr :: "effect list"
    and occs :: "occurrence list"
  assumes start: "inputBuffer st = []"
  defines "w \<equiv> foldl (occurs rt sseUrl) \<lparr>state = st, effects = tr, inflight = []\<rparr> occs"
  shows "bodies (effects w) @ complete_lines (inputBuffer (state w)) =
       bodies tr @ complete_lines (arrived occs)"
    and "inflight w = [] \<Longrightarrow> bodies (effects w) = bodies tr @ complete_lines (arrived occs)"
proof -
  let ?w0 = "\<lparr>state = st, effects = tr, inflight = []\<rparr>"
  have "js_split [NL] [] = [] @ js_split [NL] (inputBuffer (state ?w0))"
    using start by simp
  then have "framing (bodies tr) [] ?w0"
    unfolding framing_def by (intro exI [of _ "[]"]) simp
  from run_framing [OF this, of occs rt sseUrl]
  have fr: "framing (bodies tr) (arrived occs) w"
    by (simp add: w_def)
  then show 1: "bodies (effects w) @ complete_lines (inputBuffer (state w)) =
      bodies tr @ complete_lines (arrived occs)"
    by (rule framing_lines)
  have "attended ?w0" using start by (simp add: attended_def)
  then have q: "attended w" unfolding w_def by (rule run_attended)
  assume "inflight w = []"
  with q have "complete_lines (inputBuffer (state w)) = []"
    by (simp add: attended_def complete_lines_none)
  with 1 show "bodies (effects w) = bodies tr @ complete_lines (arrived occs)"
    by simp
qed

text \<open>
  ASCII bytes decode to themselves, so for ASCII input the lines POSTed depend on the
  concatenation of the chunks only, in any schedule.
\<close>

lemma toString_ascii: "ascii bs \<Longrightarrow> toString bs = bs"
proof -
  have "list_all (\<lambda>b. (of_char b :: nat) \<le> 0x7F) bs \<Longrightarrow> utf8_decode utf8_idle bs = bs"
  proof (induction bs)
    case Nil
    show ?case by (simp add: utf8_idle_def)
  next
    case (Cons b bs)
    then have "utf8_step utf8_idle b = ([b], utf8_idle)"
      by (simp add: utf8_idle_def utf8_lead_def)
    with Cons show ?case by simp
  qed
  then show "ascii bs \<Longrightarrow> toString bs = bs"
    by (simp add: ascii_def toString_def)
qed

lemma arrived_ascii:
  "list_all (\<lambda>occ. ascii (chunk_of occ)) occs \<Longrightarrow> arrived occs = concat (map chunk_of occs)"
proof (induction occs)
  case Nil
  show ?case by (simp add: arrived_Nil)
next
  case (Cons occ occs)
  then have "arrival occ = chunk_of occ"
    by (cases occ) (simp_all add: toString_ascii)
  with Cons show ?case by (simp add: arrived_Cons)
qed

lemma ascii_chunk_invariance:
  fixes rt :: runtime and sseUrl :: string and st :: bridge and tr :: "effect list"
    and occs :: "occurrence list"
  assumes "inputBuffer st = []" and "list_all (\<lambda>occ. ascii (chunk_of occ)) occs"
  defines "w \<equiv> foldl (occurs rt sseUrl) \<lparr>state = st, effects = tr, inflight = []\<rparr> occs"
  shows "bodies (effects w) @ complete_lines (inputBuffer (state w)) =
       bodies tr @ complete_lines (concat (map chunk_of occs))"
  unfolding w_def using run_bodies(1) [OF assms(1), of rt sseUrl tr occs] arrived_ascii [OF assms(2)]
  by simp

text \<open>What the completion of a POST adds to the trace.\<close>

lemma completes_effects:
  assumes "i < length (inflight v)"
  shows "\<exists>p. effects (occurs rt sseUrl v (Completes i outcome)) = effects v @ settle outcome @ p
           \<and> (\<forall>e \<in> set p. is_post e)"
proof -
  define u where "u = v\<lparr>effects := effects v @ settle outcome,
      inflight := take i (inflight v) @ drop (Suc i) (inflight v)\<rparr>"
  from pump_effects [of u] obtain p where "effects (pump u) = effects u @ p"
      "\<forall>e \<in> set p. is_post e" by blast
  then have "effects (occurs rt sseUrl v (Completes i outcome)) = effects v @ settle outcome @ p
      \<and> (\<forall>e \<in> set p. is_post e)"
    using assms by (simp add: occurs_def u_def)
  then show ?thesis by blast
qed

lemma line_write_not_post: "is_line_write e \<Longrightarrow> \<not> is_post e"
  by (cases e) simp_all

text \<open>
  In a schedule where every event handled leaves the bridge as it is, the target stays and
  every new POST goes to it.
\<close>

lemma schedule_target:
  assumes "\<And>event st tr. Listens event \<in> set occs \<Longrightarrow> fst (sse_event rt sseUrl (st, tr) event) = st"
  shows "postUrl (state (foldl (occurs rt sseUrl) w occs)) = postUrl (state w)
     \<and> (\<exists>new. effects (foldl (occurs rt sseUrl) w occs) = effects w @ new
           \<and> (\<forall>e \<in> set new. is_post e \<longrightarrow> (\<exists>b. e = Post (postUrl (state w)) b)))"
  using assms
proof (induction occs arbitrary: w)
  case Nil
  have "effects w = effects w @ []
      \<and> (\<forall>e \<in> set []. is_post e \<longrightarrow> (\<exists>b. e = Post (postUrl (state w)) b))"
    by simp
  then show ?case by auto
next
  case (Cons occ occs)
  define w1 where "w1 = occurs rt sseUrl w occ"
  have step: "postUrl (state w1) = postUrl (state w)
     \<and> (\<exists>new. effects w1 = effects w @ new
           \<and> (\<forall>e \<in> set new. is_post e \<longrightarrow> (\<exists>b. e = Post (postUrl (state w)) b)))"
  proof (cases occ)
    case (Arrives chunk)
    define v where "v = w\<lparr>state := (state w)\<lparr>inputBuffer := inputBuffer (state w) @ toString chunk\<rparr>\<rparr>"
    have w1: "w1 = pump v" by (simp add: w1_def Arrives occurs_def v_def)
    from pump_posts_url [of v] obtain p where "effects (pump v) = effects v @ p"
        "\<forall>e \<in> set p. \<exists>b. e = Post (postUrl (state v)) b" by blast
    then have "effects w1 = effects w @ p
        \<and> (\<forall>e \<in> set p. is_post e \<longrightarrow> (\<exists>b. e = Post (postUrl (state w)) b))"
      by (simp add: w1 v_def)
    moreover have "postUrl (state w1) = postUrl (state w)"
      by (simp add: w1 pump_url v_def)
    ultimately show ?thesis by blast
  next
    case (Completes i outcome)
    show ?thesis
    proof (cases "i < length (inflight w)")
      case True
      define v where "v = w\<lparr>effects := effects w @ settle outcome,
                         inflight := take i (inflight w) @ drop (Suc i) (inflight w)\<rparr>"
      have w1: "w1 = pump v" using True by (simp add: w1_def Completes occurs_def v_def)
      from pump_posts_url [of v] obtain p where "effects (pump v) = effects v @ p"
          "\<forall>e \<in> set p. \<exists>b. e = Post (postUrl (state v)) b" by blast
      then have "effects w1 = effects w @ (settle outcome @ p)
          \<and> (\<forall>e \<in> set (settle outcome @ p). is_post e \<longrightarrow> (\<exists>b. e = Post (postUrl (state w)) b))"
        by (auto simp: w1 v_def dest: settle_not_post)
      moreover have "postUrl (state w1) = postUrl (state w)"
        by (simp add: w1 pump_url v_def)
      ultimately show ?thesis by blast
    next
      case False
      then have "w1 = w" by (simp add: w1_def Completes occurs_def)
      then have "postUrl (state w1) = postUrl (state w) \<and> effects w1 = effects w @ []
          \<and> (\<forall>e \<in> set []. is_post e \<longrightarrow> (\<exists>b. e = Post (postUrl (state w)) b))"
        by simp
      then show ?thesis by blast
    qed
  next
    case (Listens event)
    obtain st1 tr1 where ev: "sse_event rt sseUrl (state w, effects w) event = (st1, tr1)"
      by (cases "sse_event rt sseUrl (state w, effects w) event")
    from Cons.prems [of event "state w" "effects w"] ev
    have st1: "st1 = state w" by (simp add: Listens)
    from sse_event_writes [of rt sseUrl "state w" "effects w" event] ev
    obtain out where out: "tr1 = effects w @ out" "\<forall>e \<in> set out. is_line_write e" by auto
    have w1: "w1 = w\<lparr>state := st1, effects := tr1\<rparr>"
      by (simp add: w1_def Listens occurs_def ev)
    have "\<forall>e \<in> set out. is_post e \<longrightarrow> (\<exists>b. e = Post (postUrl (state w)) b)"
      using out(2) line_write_not_post by blast
    with out(1) have "effects w1 = effects w @ out
        \<and> (\<forall>e \<in> set out. is_post e \<longrightarrow> (\<exists>b. e = Post (postUrl (state w)) b))"
      by (simp add: w1)
    moreover have "postUrl (state w1) = postUrl (state w)"
      by (simp add: w1 st1)
    ultimately show ?thesis by blast
  qed
  have "\<And>event st tr. Listens event \<in> set occs \<Longrightarrow>
      fst (sse_event rt sseUrl (st, tr) event) = st"
    using Cons.prems by simp
  from Cons.IH [OF this, of w1] step show ?case
    by (auto simp: w1_def [symmetric])
qed

text \<open>
  The loop run to its end is the reactive system on the schedule where every POST
  completes at once.
\<close>

declare complete_all.simps [simp del]

lemma stdin_loop_schedule:
  "complete_all rt sseUrl (pump \<lparr>state = st, effects = tr, inflight = []\<rparr>) =
     \<lparr>state = fst (stdin_loop rt st tr), effects = snd (stdin_loop rt st tr), inflight = []\<rparr>"
proof (induction rt st tr rule: stdin_loop.induct)
  case (1 rt st tr)
  let ?w = "\<lparr>state = st, effects = tr, inflight = []\<rparr>"
  show ?case
  proof (cases "indexOf [NL] (inputBuffer st)")
    case None
    then have "pump ?w = ?w" by (simp add: pump_none)
    moreover have "complete_all rt sseUrl ?w = ?w" by (subst complete_all.simps) simp
    moreover have "stdin_loop rt st tr = (st, tr)"
      using None by (subst stdin_loop.simps) simp
    ultimately show ?thesis by simp
  next
    case (Some i)
    define line where "line = take i (inputBuffer st)"
    define st' where "st' = st\<lparr>inputBuffer := drop (i + 1) (inputBuffer st)\<rparr>"
    let ?w' = "\<lparr>state = st', effects = tr, inflight = []\<rparr>"
    show ?thesis
    proof (cases "js_trim line \<noteq> []")
      case True
      define out where "out = fetch_post rt (length (posts tr)) (postUrl st') line"
      have loop: "stdin_loop rt st tr =
          stdin_loop rt st' (tr @ forward rt (length (posts tr)) (postUrl st') line)"
        using Some True by (subst stdin_loop.simps) (simp add: st'_def line_def Let_def)
      have p: "pump ?w = \<lparr>state = st', effects = tr @ [Post (postUrl st') line],
          inflight = [(postUrl st', line)]\<rparr>"
        using Some True by (subst pump.simps) (simp add: st'_def line_def Let_def)
      have "complete_all rt sseUrl (pump ?w) =
          complete_all rt sseUrl (occurs rt sseUrl (pump ?w) (Completes 0 out))"
        unfolding p by (subst complete_all.simps) (simp add: out_def posts_append, simp add: posts_def)
      also have "occurs rt sseUrl (pump ?w) (Completes 0 out) =
          pump \<lparr>state = st', effects = tr @ forward rt (length (posts tr)) (postUrl st') line,
                inflight = []\<rparr>"
        unfolding p by (simp add: occurs_def forward_def out_def)
      also have "complete_all rt sseUrl \<dots> =
          \<lparr>state = fst (stdin_loop rt st' (tr @ forward rt (length (posts tr)) (postUrl st') line)),
           effects = snd (stdin_loop rt st' (tr @ forward rt (length (posts tr)) (postUrl st') line)),
           inflight = []\<rparr>"
        using "1.IH"(1) [OF Some line_def st'_def] True by simp
      finally show ?thesis by (simp add: loop)
    next
      case False
      have loop: "stdin_loop rt st tr = stdin_loop rt st' tr"
        using Some False by (subst stdin_loop.simps) (simp add: st'_def line_def Let_def)
      have "pump ?w = pump ?w'"
        using Some False by (subst pump.simps) (simp add: st'_def line_def Let_def)
      with "1.IH"(2) [OF Some line_def st'_def] False show ?thesis
        by (simp add: loop)
    qed
  qed
qed

text \<open>
  On that schedule, around a POST that is rejected: the lines before, the POST and the
  message on standard error, the next POST with its reply, the lines after.
\<close>

lemma run_to_end_post_failure:
  assumes buffer: "inputBuffer st = []"
    and input: "concat (map toString chunks) = concat (map (\<lambda>l. l @ [NL]) (pre @ [m, m'] @ suf))"
    and lines: "\<forall>l \<in> set (pre @ [m, m'] @ suf). NL \<notin> set l \<and> js_trim l \<noteq> []"
    and fail: "fetch_post rt (length (posts tr) + length pre) (postUrl st) m = FetchRejects msg"
    and reply: "fetch_post rt (Suc (length (posts tr) + length pre)) (postUrl st) m' =
        Replied status text"
  shows "snd (stdin_run rt (st, tr) chunks) =
       tr @ blocks rt (postUrl st) (length (posts tr)) pre
          @ [Post (postUrl st) m, Stderr (''[Proxy] Error forwarding request: '' @ msg)]
          @ [Post (postUrl st) m']
          @ (if text \<noteq> [] \<and> js_trim text \<noteq> [] then [Stdout (text @ [NL])] else [])
          @ blocks rt (postUrl st) (length (posts tr) + length pre + 2) suf
     \<and> posts (snd (stdin_run rt (st, tr) chunks)) =
       posts tr @ map (Post (postUrl st)) (pre @ [m, m'] @ suf)"
proof -
  let ?ls = "pre @ [m, m'] @ suf"
  have 1: "concat (map toString chunks) = concat (map (\<lambda>l. l @ [NL]) ?ls) @ []"
    using input by simp
  have 2: "\<forall>l \<in> set ?ls. NL \<notin> set l" and 3: "filter (\<lambda>l. js_trim l \<noteq> []) ?ls = ?ls"
    using lines by (simp_all add: filter_id_conv)
  have run: "snd (stdin_run rt (st, tr) chunks) = tr @ blocks rt (postUrl st) (length (posts tr)) ?ls"
    using stdin_run_lines [OF buffer 1 2, of rt tr] by (simp only: 3 snd_conv) simp
  have fm: "forward rt (length (posts tr) + length pre) (postUrl st) m =
      [Post (postUrl st) m, Stderr (''[Proxy] Error forwarding request: '' @ msg)]"
    using fail by (simp add: forward_def settle_def)
  have fm': "forward rt (Suc (length (posts tr) + length pre)) (postUrl st) m' =
      Post (postUrl st) m' #
      (if text \<noteq> [] \<and> js_trim text \<noteq> [] then [Stdout (text @ [NL])] else [])"
    using reply by (simp add: forward_def settle_def)
  have "blocks rt (postUrl st) (length (posts tr)) ?ls =
      blocks rt (postUrl st) (length (posts tr)) pre
      @ forward rt (length (posts tr) + length pre) (postUrl st) m
      @ forward rt (Suc (length (posts tr) + length pre)) (postUrl st) m'
      @ blocks rt (postUrl st) (length (posts tr) + length pre + 2) suf"
    by (simp add: blocks_append)
  with run fm fm' have a: "snd (stdin_run rt (st, tr) chunks) =
       tr @ blocks rt (postUrl st) (length (posts tr)) pre
          @ [Post (postUrl st) m, Stderr (''[Proxy] Error forwarding request: '' @ msg)]
          @ [Post (postUrl st) m']
          @ (if text \<noteq> [] \<and> js_trim text \<noteq> [] then [Stdout (text @ [NL])] else [])
          @ blocks rt (postUrl st) (length (posts tr) + length pre + 2) suf"
    by simp
  have b: "posts (snd (stdin_run rt (st, tr) chunks)) = posts tr @ map (Post (postUrl st)) ?ls"
    unfolding run by (rule posts_trace_blocks)
  from a b show ?thesis by (rule conjI)
qed

text \<open>
  When every chunk ends where a line ends, the relay without a buffer and the buffered one
  (both with every POST completing at once) leave the same trace.
\<close>

lemma last_split_newline: "last (js_split [NL] (x @ [NL])) = []"
proof -
  define l where "l = last (js_split [NL] x)"
  have "indexOf [NL] l = None" unfolding l_def by (rule indexOf_last_split) simp
  then have "NL \<notin> set l" by (rule indexOf_NL_None_set)
  then have "js_split [NL] (l @ [NL]) = [l, []]"
    using js_split_lines [of "[l]" "[]"] by simp
  moreover have "js_split [NL] (x @ [NL]) =
      butlast (js_split [NL] x) @ js_split [NL] (l @ [NL])"
    unfolding l_def by (rule js_split_append) simp
  ultimately show ?thesis by simp
qed

lemma whole_lines_last: "whole_lines s \<Longrightarrow> last (js_split [NL] s) = []"
proof (cases "s = []")
  case True
  then show ?thesis by (subst js_split.simps) simp
next
  case False
  assume "whole_lines s"
  with False have "s = butlast s @ [NL]"
    by (simp add: whole_lines_def) (metis append_butlast_last_id)
  then show ?thesis using last_split_newline [of "butlast s"] by simp
qed

lemma unbuffered_line_blank: "unbuffered_line rt url tr [] = tr"
  by (simp add: unbuffered_line_def js_trim_Nil)

lemma unbuffered_whole_lines:
  assumes "whole_lines (toString chunk)"
  shows "unbuffered_on_data rt url tr chunk =
     foldl (unbuffered_line rt url) tr (butlast (js_split [NL] (toString chunk)))"
proof -
  define ps where "ps = js_split [NL] (toString chunk)"
  have ne: "ps \<noteq> []" unfolding ps_def by (rule js_split_not_Nil) simp
  have "last ps = []" unfolding ps_def using assms by (rule whole_lines_last)
  with ne have "ps = butlast ps @ [[]]" by (metis append_butlast_last_id)
  then have "foldl (unbuffered_line rt url) tr ps =
      foldl (unbuffered_line rt url) tr (butlast ps)"
    by (metis foldl_append foldl_Cons foldl_Nil unbuffered_line_blank)
  then show ?thesis by (simp add: unbuffered_on_data_def ps_def)
qed

lemma relays_agree_on_whole_lines:
  assumes "inputBuffer st = []" and "list_all (\<lambda>c. whole_lines (toString c)) chunks"
  shows "stdin_run rt (st, tr) chunks = (st, unbuffered_run rt (postUrl st) tr chunks)"
  using assms
proof (induction chunks arbitrary: tr)
  case Nil
  show ?case by (simp add: stdin_run_def unbuffered_run_def)
next
  case (Cons c cs)
  from Cons.prems have wl: "whole_lines (toString c)" by simp
  have "stdin_on_data rt (st, tr) c =
      (st\<lparr>inputBuffer := last (js_split [NL] (toString c))\<rparr>,
       foldl (unbuffered_line rt (postUrl st)) tr (butlast (js_split [NL] (toString c))))"
    using Cons.prems(1) by (simp add: stdin_on_data_def stdin_loop_eq)
  also have "\<dots> = (st, unbuffered_on_data rt (postUrl st) tr c)"
    using Cons.prems(1) by (simp add: whole_lines_last [OF wl] unbuffered_whole_lines [OF wl])
  finally have step: "stdin_on_data rt (st, tr) c = (st, unbuffered_on_data rt (postUrl st) tr c)" .
  from Cons.prems have "list_all (\<lambda>c. whole_lines (toString c)) cs" by simp
  from Cons.IH [OF Cons.prems(1) this, of "unbuffered_on_data rt (postUrl st) tr c"]
  show ?case by (simp add: stdin_run_def unbuffered_run_def step)
qed

section \<open>Values of the examples\<close>

lemma js_trim_examples:
  "js_trim ''{\"id\":1}'' \<noteq> []" "js_trim ''{\"id\":2}'' \<noteq> []" "js_trim ''{\"error\":1}'' \<noteq> []"
  "js_trim ''ping'' \<noteq> []" "js_trim ''ab'' \<noteq> []" "js_trim ''c'' \<noteq> []" "js_trim ''abc'' \<noteq> []"
  "js_trim [CHR ''a'', CR] \<noteq> []" "js_trim [CHR ''b'', CR] \<noteq> []"
  "js_trim [CHR 0xC3, CHR 0xA9] \<noteq> []" "js_trim ''{}\<newline>'' \<noteq> []"
  "js_trim ''{\"id\":3}'' \<noteq> []"
  by (rule js_trim_nonblank, simp_all add: js_whitespace_def)+

lemma js_trim_endpoint: "js_trim ''endpoint'' = ''endpoint''"
  by (rule js_trim_id) (simp_all add: js_whitespace_def suffix_to_prefix)

lemma toString_examples:
  "toString ''{\"id\":1}\<newline>{\"id'' = ''{\"id\":1}'' @ NL # ''{\"id''"
  "toString ''\":2}\<newline>'' = ''\":2}'' @ NL # []"
  "toString ''{\"id\":3}\<newline>'' = ''{\"id\":3}'' @ NL # []"
  by (simp_all add: toString_def utf8_idle_def utf8_lead_def NL_def)

section \<open>The claims\<close>

text \<open>
  Claim C9. With no argument after the script name (\<open>process.argv\<close> of length at most 2),
  and also with an empty one, the process writes the usage message on standard error and
  exits with status 1, and that is all it does: no \<open>Get\<close> and no \<open>Post\<close> comes before the
  exit. With a non-empty argument the bridge starts with that SSE URL, an empty input
  buffer and, as target, the SSE URL with a final \<open>/sse\<close> replaced by \<open>/mcp\<close> (the URL
  itself when it does not end in \<open>/sse\<close>).
\<close>

theorem startup_usage_or_target:
  "(length argv \<le> 2 \<or> argv ! 2 = [] \<longrightarrow>
      startup argv = Exited [Stderr ''Usage: node proxy.js <sse-url>'', Exit 1])
   \<and> (2 < length argv \<and> argv ! 2 = base @ ''/sse'' \<longrightarrow>
      startup argv = Started (argv ! 2) \<lparr>postUrl = base @ ''/mcp'', inputBuffer = []\<rparr>)
   \<and> (2 < length argv \<and> argv ! 2 \<noteq> [] \<and> \<not> suffix ''/sse'' (argv ! 2) \<longrightarrow>
      startup argv = Started (argv ! 2) \<lparr>postUrl = argv ! 2, inputBuffer = []\<rparr>)"
proof (intro conjI impI)
  assume "length argv \<le> 2 \<or> argv ! 2 = []"
  then show "startup argv = Exited [Stderr ''Usage: node proxy.js <sse-url>'', Exit 1]"
    by (simp add: startup_def)
next
  assume a: "2 < length argv \<and> argv ! 2 = base @ ''/sse''"
  then have "suffix ''/sse'' (argv ! 2)" and "argv ! 2 \<noteq> []"
    by (simp_all add: suffix_def)
  moreover have "take (length (argv ! 2) - 4) (argv ! 2) = base"
    using a by simp
  ultimately show "startup argv =
      Started (argv ! 2) \<lparr>postUrl = base @ ''/mcp'', inputBuffer = []\<rparr>"
    using a by (simp add: startup_def replace_sse_suffix_def)
next
  assume "2 < length argv \<and> argv ! 2 \<noteq> [] \<and> \<not> suffix ''/sse'' (argv ! 2)"
  then show "startup argv = Started (argv ! 2) \<lparr>postUrl = argv ! 2, inputBuffer = []\<rparr>"
    by (simp add: startup_def replace_sse_suffix_def)
qed

theorem startup_usage_or_target_witness:
  "startup [''node'', ''proxy.js''] = Exited [Stderr ''Usage: node proxy.js <sse-url>'', Exit 1]
   \<and> startup [''node'', ''proxy.js'', []] =
       Exited [Stderr ''Usage: node proxy.js <sse-url>'', Exit 1]
   \<and> startup [''node'', ''proxy.js'', ''https://w.example/sse''] =
       Started ''https://w.example/sse'' \<lparr>postUrl = ''https://w.example/mcp'', inputBuffer = []\<rparr>
   \<and> startup [''node'', ''proxy.js'', ''https://w.example/events''] =
       Started ''https://w.example/events'' \<lparr>postUrl = ''https://w.example/events'', inputBuffer = []\<rparr>"
  using startup_usage_or_target [of "[''node'', ''proxy.js'']" "[]"]
    startup_usage_or_target [of "[''node'', ''proxy.js'', []]" "[]"]
    startup_usage_or_target [of "[''node'', ''proxy.js'', ''https://w.example/sse'']" "''https://w.example''"]
    startup_usage_or_target [of "[''node'', ''proxy.js'', ''https://w.example/events'']" "[]"]
  by (simp add: suffix_to_prefix)

text \<open>
  Claim C1 says that the lines POSTed depend only on the concatenation of the chunks.
  On the decoded text that is so, in any schedule (\<open>run_bodies\<close>), and so it is on
  ASCII input (\<open>ascii_chunk_invariance\<close>), but each chunk is decoded on its own by
  \<open>chunk.toString()\<close>: the three bytes \<open>C3 A9 0A\<close> (the letter
  U+00E9 and a newline) give the POST body \<open>C3 A9\<close> when they arrive in one chunk, and
  the body U+FFFD U+FFFD when the chunk boundary falls between \<open>C3\<close> and \<open>A9\<close>.
\<close>

theorem stdin_chunk_inside_character:
  "effects (foldl (occurs example_runtime ''https://w.example/sse'') example_world
      [Arrives [CHR 0xC3, CHR 0xA9, CHR 0x0A]]) =
     [Post ''https://w.example/mcp'' [CHR 0xC3, CHR 0xA9]]
   \<and> effects (foldl (occurs example_runtime ''https://w.example/sse'') example_world
      [Arrives [CHR 0xC3], Arrives [CHR 0xA9, CHR 0x0A]]) =
     [Post ''https://w.example/mcp'' [CHR 0xEF, CHR 0xBF, CHR 0xBD, CHR 0xEF, CHR 0xBF, CHR 0xBD]]"
proof
  have "toString [CHR 0xC3, CHR 0xA9, CHR 0x0A] = [CHR 0xC3, CHR 0xA9] @ NL # []"
    by (simp add: toString_def utf8_idle_def utf8_lead_def NL_def)
  then show "effects (foldl (occurs example_runtime ''https://w.example/sse'') example_world
      [Arrives [CHR 0xC3, CHR 0xA9, CHR 0x0A]]) =
     [Post ''https://w.example/mcp'' [CHR 0xC3, CHR 0xA9]]"
    unfolding foldl.simps occurs_def occurrence.case
    by (subst pump_line [of _ "[CHR 0xC3, CHR 0xA9]" "[]"])
      (simp_all add: example_world_def example_bridge_def js_trim_examples NL_def)
next
  let ?l = "[CHR 0xEF, CHR 0xBF, CHR 0xBD, CHR 0xEF, CHR 0xBF, CHR 0xBD]"
  have "js_trim ?l = ?l"
    by (rule js_trim_id) (simp_all add: js_whitespace_def suffix_to_prefix)
  then have nb: "js_trim ?l \<noteq> []"
    by simp
  have d1: "toString [CHR 0xC3] = [CHR 0xEF, CHR 0xBF, CHR 0xBD]"
    and d2: "toString [CHR 0xA9, CHR 0x0A] = [CHR 0xEF, CHR 0xBF, CHR 0xBD, NL]"
    by (simp_all add: toString_def utf8_idle_def utf8_lead_def NL_def REPL_def)
  define w1 where "w1 = example_world\<lparr>state := example_bridge\<lparr>inputBuffer := [CHR 0xEF, CHR 0xBF, CHR 0xBD]\<rparr>\<rparr>"
  have s1: "occurs example_runtime ''https://w.example/sse'' example_world (Arrives [CHR 0xC3]) = w1"
    unfolding occurs_def occurrence.case d1
    by (subst pump_none) (simp_all add: example_world_def example_bridge_def w1_def NL_def)
  have s2: "effects (occurs example_runtime ''https://w.example/sse'' w1 (Arrives [CHR 0xA9, CHR 0x0A])) =
      [Post ''https://w.example/mcp'' ?l]"
    unfolding occurs_def occurrence.case d2
    using nb by (subst pump_line [of _ ?l "[]"])
      (simp_all add: example_world_def example_bridge_def w1_def NL_def)
  show "effects (foldl (occurs example_runtime ''https://w.example/sse'') example_world
      [Arrives [CHR 0xC3], Arrives [CHR 0xA9, CHR 0x0A]]) = [Post ''https://w.example/mcp'' ?l]"
    by (simp add: s1 s2)
qed

text \<open>
  Claim C3 says that a trailing carriage return is removed from the line. The code does
  not: the input \<open>a\r\n\<close> is POSTed as \<open>a\r\<close>.
\<close>

theorem crlf_counterexample:
  "effects (occurs example_runtime ''https://w.example/sse'' example_world
      (Arrives [CHR ''a'', CR, NL])) =
     [Post ''https://w.example/mcp'' [CHR ''a'', CR]]"
proof -
  have "toString [CHR ''a'', CR, NL] = [CHR ''a'', CR] @ NL # []"
    by (simp add: toString_def utf8_idle_def utf8_lead_def NL_def CR_def)
  then show ?thesis
    unfolding occurs_def occurrence.case
    by (subst pump_line [of _ "[CHR ''a'', CR]" "[]"])
      (simp_all add: example_world_def example_bridge_def js_trim_examples, simp add: NL_def CR_def)
qed

text \<open>
  Claim C3 as amended: a POST body is the text before the newline as it is. When the
  text that arrives is a sequence of non-blank lines each ended by \<open>\r\n\<close>, then, in any
  schedule, the bodies POSTed (followed by the lines still in the buffer) are these lines
  in order, each with its carriage return as last byte; and with no POST in flight all
  of them have been POSTed.
\<close>

theorem crlf_lines_keep_cr:
  fixes rt :: runtime and sseUrl :: string and st :: bridge and tr :: "effect list"
    and occs :: "occurrence list"
  assumes start: "inputBuffer st = []"
    and input: "arrived occs = concat (map (\<lambda>l. l @ [CR, NL]) ls)"
    and lines: "\<forall>l \<in> set ls. NL \<notin> set l \<and> js_trim (l @ [CR]) \<noteq> []"
  defines "w \<equiv> foldl (occurs rt sseUrl) \<lparr>state = st, effects = tr, inflight = []\<rparr> occs"
  shows "bodies (effects w) @ complete_lines (inputBuffer (state w)) =
       bodies tr @ map (\<lambda>l. l @ [CR]) ls
     \<and> (inflight w = [] \<longrightarrow> bodies (effects w) = bodies tr @ map (\<lambda>l. l @ [CR]) ls)"
proof -
  let ?ls = "map (\<lambda>l. l @ [CR]) ls"
  have 1: "arrived occs = concat (map (\<lambda>l. l @ [NL]) ?ls) @ []"
    using input by (simp add: o_def)
  have 2: "\<forall>l \<in> set ?ls. NL \<notin> set l"
    using lines by (simp add: NL_def CR_def)
  have 3: "filter (\<lambda>l. js_trim l \<noteq> []) ?ls = ?ls"
    using lines by (simp add: filter_map o_def)
  have c: "complete_lines (arrived occs) = ?ls"
    unfolding 1 using complete_lines_lines [OF 2, of "[]"] 3 by simp
  show ?thesis
    unfolding w_def
    using run_bodies [OF start, of rt sseUrl tr occs] c by simp
qed

theorem crlf_lines_keep_cr_witness:
  "bodies (effects (foldl (occurs example_runtime ''https://w.example/sse'') example_world
      [Arrives [CHR ''a'', CR], Arrives [NL, CHR ''b'', CR, NL]])) @
   complete_lines (inputBuffer (state (foldl (occurs example_runtime ''https://w.example/sse'') example_world
      [Arrives [CHR ''a'', CR], Arrives [NL, CHR ''b'', CR, NL]]))) =
     [[CHR ''a'', CR], [CHR ''b'', CR]]"
proof -
  have b: "inputBuffer example_bridge = []" by (simp add: example_bridge_def)
  have i: "arrived [Arrives [CHR ''a'', CR], Arrives [NL, CHR ''b'', CR, NL]] =
      concat (map (\<lambda>l. l @ [CR, NL]) [''a'', ''b''])"
    by (simp add: arrived_def toString_def utf8_idle_def utf8_lead_def NL_def CR_def)
  have l: "\<forall>l \<in> set [''a'', ''b'']. NL \<notin> set l \<and> js_trim (l @ [CR]) \<noteq> []"
    using js_trim_examples by (simp add: NL_def)
  from crlf_lines_keep_cr [OF b i l, of example_runtime "''https://w.example/sse''" "[]"]
  show ?thesis
    by (simp add: example_world_def bodies_def posts_def)
qed

text \<open>
  Claim C8. In any schedule of arrivals, completions (with any outcomes) and events, the
  bodies POSTed so far followed by the complete lines still in the buffer are the
  complete lines of the input, in order: a line is POSTed once, also when its POST was
  rejected, and the lines after it are POSTed all the same; with no POST in flight every
  complete line has been POSTed. The completion of a POST that the transport rejects,
  be it the \<open>fetch\<close> or the reading of the response body, adds the error message on
  standard error and nothing on standard output; the next thing written, if any, is the
  POST of the next line. The completion of a POST with a response adds nothing on standard
  error, whatever the status: a body that is not blank is written with a newline on
  standard output, a blank one is not written.
\<close>

theorem post_failure_isolated:
  fixes rt :: runtime and sseUrl :: string and st :: bridge and tr :: "effect list"
    and occs :: "occurrence list"
  assumes start: "inputBuffer st = []"
  defines "w \<equiv> foldl (occurs rt sseUrl) \<lparr>state = st, effects = tr, inflight = []\<rparr> occs"
  shows "bodies (effects w) @ complete_lines (inputBuffer (state w)) =
       bodies tr @ complete_lines (arrived occs)
     \<and> (inflight w = [] \<longrightarrow> bodies (effects w) = bodies tr @ complete_lines (arrived occs))
     \<and> (i < length (inflight v) \<longrightarrow>
          (\<exists>p. effects (occurs rt sseUrl v (Completes i (FetchRejects msg))) =
                 effects v @ [Stderr (''[Proxy] Error forwarding request: '' @ msg)] @ p
               \<and> (\<forall>e \<in> set p. is_post e)))
     \<and> (i < length (inflight v) \<longrightarrow>
          (\<exists>p. effects (occurs rt sseUrl v (Completes i (TextRejects status msg))) =
                 effects v @ [Stderr (''[Proxy] Error forwarding request: '' @ msg)] @ p
               \<and> (\<forall>e \<in> set p. is_post e)))
     \<and> (i < length (inflight v) \<and> js_trim text \<noteq> [] \<longrightarrow>
          (\<exists>p. effects (occurs rt sseUrl v (Completes i (Replied status text))) =
                 effects v @ [Stdout (text @ [NL])] @ p
               \<and> (\<forall>e \<in> set p. is_post e)))
     \<and> (i < length (inflight v) \<and> js_trim text = [] \<longrightarrow>
          (\<exists>p. effects (occurs rt sseUrl v (Completes i (Replied status text))) = effects v @ p
               \<and> (\<forall>e \<in> set p. is_post e)))"
proof (intro conjI impI)
  show "bodies (effects w) @ complete_lines (inputBuffer (state w)) =
      bodies tr @ complete_lines (arrived occs)"
    unfolding w_def using start by (rule run_bodies(1))
  assume "inflight w = []"
  then show "bodies (effects w) = bodies tr @ complete_lines (arrived occs)"
    unfolding w_def using start by (intro run_bodies(2))
next
  assume i: "i < length (inflight v)"
  from completes_effects [OF i, of rt sseUrl "FetchRejects msg"]
  show "\<exists>p. effects (occurs rt sseUrl v (Completes i (FetchRejects msg))) =
      effects v @ [Stderr (''[Proxy] Error forwarding request: '' @ msg)] @ p
      \<and> (\<forall>e \<in> set p. is_post e)"
    by (simp add: settle_def)
next
  assume i: "i < length (inflight v)"
  from completes_effects [OF i, of rt sseUrl "TextRejects status msg"]
  show "\<exists>p. effects (occurs rt sseUrl v (Completes i (TextRejects status msg))) =
      effects v @ [Stderr (''[Proxy] Error forwarding request: '' @ msg)] @ p
      \<and> (\<forall>e \<in> set p. is_post e)"
    by (simp add: settle_def)
next
  assume i: "i < length (inflight v) \<and> js_trim text \<noteq> []"
  then have t: "text \<noteq> []" using js_trim_Nil by auto
  from i have "i < length (inflight v)" ..
  from completes_effects [OF this, of rt sseUrl "Replied status text"] i t
  show "\<exists>p. effects (occurs rt sseUrl v (Completes i (Replied status text))) =
      effects v @ [Stdout (text @ [NL])] @ p \<and> (\<forall>e \<in> set p. is_post e)"
    by (simp add: settle_def)
next
  assume i: "i < length (inflight v) \<and> js_trim text = []"
  then have "i < length (inflight v)" ..
  from completes_effects [OF this, of rt sseUrl "Replied status text"] i
  show "\<exists>p. effects (occurs rt sseUrl v (Completes i (Replied status text))) = effects v @ p
      \<and> (\<forall>e \<in> set p. is_post e)"
    by (simp add: settle_def)
qed

theorem post_failure_isolated_witness:
  "foldl (occurs example_runtime ''https://w.example/sse'') example_world
      [Arrives ''{\"id\":1}\<newline>{\"id'', Arrives ''\":2}\<newline>'',
       Completes 0 (FetchRejects ''fetch failed''), Completes 0 (Replied 500 ''{\"error\":1}''),
       Arrives ''{\"id\":3}\<newline>'', Completes 0 (TextRejects 200 ''terminated'')] =
     \<lparr>state = example_bridge,
      effects = [Post ''https://w.example/mcp'' ''{\"id\":1}'',
                 Post ''https://w.example/mcp'' ''{\"id\":2}'',
                 Stderr ''[Proxy] Error forwarding request: fetch failed'',
                 Stdout ''{\"error\":1}\<newline>'',
                 Post ''https://w.example/mcp'' ''{\"id\":3}'',
                 Stderr ''[Proxy] Error forwarding request: terminated''],
      inflight = []\<rparr>
   \<and> complete_lines (arrived [Arrives ''{\"id\":1}\<newline>{\"id'', Arrives ''\":2}\<newline>'',
       Completes 0 (FetchRejects ''fetch failed''), Completes 0 (Replied 500 ''{\"error\":1}''),
       Arrives ''{\"id\":3}\<newline>'', Completes 0 (TextRejects 200 ''terminated'')]) =
     [''{\"id\":1}'', ''{\"id\":2}'', ''{\"id\":3}'']"
proof -
  let ?u = "''https://w.example/sse''"
  let ?occs = "[Arrives ''{\"id\":1}\<newline>{\"id'', Arrives ''\":2}\<newline>'',
       Completes 0 (FetchRejects ''fetch failed''), Completes 0 (Replied 500 ''{\"error\":1}''),
       Arrives ''{\"id\":3}\<newline>'', Completes 0 (TextRejects 200 ''terminated'')]"
  define w1 where "w1 = \<lparr>state = example_bridge\<lparr>inputBuffer := ''{\"id''\<rparr>,
      effects = [Post ''https://w.example/mcp'' ''{\"id\":1}''],
      inflight = [(''https://w.example/mcp'', ''{\"id\":1}'')]\<rparr>"
  define w2 where "w2 = \<lparr>state = example_bridge,
      effects = [Post ''https://w.example/mcp'' ''{\"id\":1}'', Post ''https://w.example/mcp'' ''{\"id\":2}''],
      inflight = [(''https://w.example/mcp'', ''{\"id\":1}''), (''https://w.example/mcp'', ''{\"id\":2}'')]\<rparr>"
  define w3 where "w3 = \<lparr>state = example_bridge,
      effects = [Post ''https://w.example/mcp'' ''{\"id\":1}'', Post ''https://w.example/mcp'' ''{\"id\":2}'',
                 Stderr ''[Proxy] Error forwarding request: fetch failed''],
      inflight = [(''https://w.example/mcp'', ''{\"id\":2}'')]\<rparr>"
  define w4 where "w4 = \<lparr>state = example_bridge,
      effects = [Post ''https://w.example/mcp'' ''{\"id\":1}'', Post ''https://w.example/mcp'' ''{\"id\":2}'',
                 Stderr ''[Proxy] Error forwarding request: fetch failed'',
                 Stdout ''{\"error\":1}\<newline>''],
      inflight = []\<rparr>"
  define w5 where "w5 = \<lparr>state = example_bridge,
      effects = [Post ''https://w.example/mcp'' ''{\"id\":1}'', Post ''https://w.example/mcp'' ''{\"id\":2}'',
                 Stderr ''[Proxy] Error forwarding request: fetch failed'',
                 Stdout ''{\"error\":1}\<newline>'',
                 Post ''https://w.example/mcp'' ''{\"id\":3}''],
      inflight = [(''https://w.example/mcp'', ''{\"id\":3}'')]\<rparr>"
  define w6 where "w6 = \<lparr>state = example_bridge,
      effects = [Post ''https://w.example/mcp'' ''{\"id\":1}'', Post ''https://w.example/mcp'' ''{\"id\":2}'',
                 Stderr ''[Proxy] Error forwarding request: fetch failed'',
                 Stdout ''{\"error\":1}\<newline>'',
                 Post ''https://w.example/mcp'' ''{\"id\":3}'',
                 Stderr ''[Proxy] Error forwarding request: terminated''],
      inflight = []\<rparr>"
  have s1: "occurs example_runtime ?u example_world (Arrives ''{\"id\":1}\<newline>{\"id'') = w1"
    unfolding occurs_def occurrence.case toString_examples
    by (subst pump_line [of _ "''{\"id\":1}''" "''{\"id''"])
      (simp_all add: example_world_def example_bridge_def js_trim_examples NL_def w1_def)
  have s2: "occurs example_runtime ?u w1 (Arrives ''\":2}\<newline>'') = w2"
    unfolding occurs_def occurrence.case toString_examples
    by (subst pump_line [of _ "''{\"id\":2}''" "[]"])
      (simp_all add: example_bridge_def js_trim_examples NL_def w1_def w2_def)
  have s3: "occurs example_runtime ?u w2 (Completes 0 (FetchRejects ''fetch failed'')) = w3"
    by (simp add: occurs_def w2_def w3_def settle_def pump_none example_bridge_def)
  have s4: "occurs example_runtime ?u w3 (Completes 0 (Replied 500 ''{\"error\":1}'')) = w4"
    using js_trim_examples(3)
    by (simp add: occurs_def w3_def w4_def settle_def pump_none example_bridge_def NL_def)
  have s5: "occurs example_runtime ?u w4 (Arrives ''{\"id\":3}\<newline>'') = w5"
    unfolding occurs_def occurrence.case toString_examples
    by (subst pump_line [of _ "''{\"id\":3}''" "[]"])
      (simp_all add: example_bridge_def js_trim_examples NL_def w4_def w5_def)
  have s6: "occurs example_runtime ?u w5 (Completes 0 (TextRejects 200 ''terminated'')) = w6"
    by (simp add: occurs_def w5_def w6_def settle_def pump_none example_bridge_def)
  have run: "foldl (occurs example_runtime ?u) example_world ?occs = w6"
    by (simp add: s1 s2 s3 s4 s5 s6)
  have b: "inputBuffer example_bridge = []" by (simp add: example_bridge_def)
  note t = post_failure_isolated [OF b, of example_runtime ?u "[]" ?occs]
  from t have "inflight (foldl (occurs example_runtime ?u) example_world ?occs) = [] \<longrightarrow>
      bodies (effects (foldl (occurs example_runtime ?u) example_world ?occs)) =
      bodies [] @ complete_lines (arrived ?occs)"
    unfolding example_world_def by blast
  then have "complete_lines (arrived ?occs) = [''{\"id\":1}'', ''{\"id\":2}'', ''{\"id\":3}'']"
    unfolding run by (simp add: w6_def bodies_def posts_def)
  with run show ?thesis by (simp add: w6_def)
qed

text \<open>
  Claim C10 says that the relay without a buffer POSTs the same bodies as the buffered
  one. With every POST completing at once, the line \<open>abc\<close> arriving as the chunks \<open>ab\<close>
  and \<open>c\n\<close> is POSTed as \<open>abc\<close> by \<open>proxy.js\<close> and as the two bodies \<open>ab\<close> and \<open>c\<close> by
  the relay without a buffer.
\<close>

theorem unbuffered_differs:
  "posts (unbuffered_run example_runtime ''https://w.example/mcp'' [] [''ab'', ''c\<newline>'']) =
     [Post ''https://w.example/mcp'' ''ab'', Post ''https://w.example/mcp'' ''c'']
   \<and> posts (snd (stdin_run example_runtime (example_bridge, []) [''ab'', ''c\<newline>''])) =
     [Post ''https://w.example/mcp'' ''abc'']"
proof
  have nb: "js_trim ''ab'' \<noteq> []" "js_trim ''c'' \<noteq> []"
    by (rule js_trim_nonblank, simp_all add: js_whitespace_def)+
  have d: "toString ''ab'' = ''ab''" "toString ''c\<newline>'' = ''c\<newline>''"
    by (simp_all add: toString_def utf8_idle_def utf8_lead_def)
  have s1: "js_split [NL] ''ab'' = [''ab'']"
    using js_split_lines [of "[]" "''ab''"] by (simp add: NL_def)
  have s2: "js_split [NL] ''c\<newline>'' = [''c'', []]"
    using js_split_lines [of "[''c'']" "[]"] by (simp add: NL_def)
  show "posts (unbuffered_run example_runtime ''https://w.example/mcp'' [] [''ab'', ''c\<newline>'']) =
     [Post ''https://w.example/mcp'' ''ab'', Post ''https://w.example/mcp'' ''c'']"
    using nb by (simp add: unbuffered_run_eq d s1 s2 js_trim_Nil posts_append posts_forward)
next
  have nb: "js_trim ''abc'' \<noteq> []"
    by (rule js_trim_nonblank) (simp_all add: js_whitespace_def)
  have "concat (map toString [''ab'', ''c\<newline>'']) = concat (map (\<lambda>l. l @ [NL]) [''abc'']) @ []"
    by (simp add: toString_def utf8_idle_def utf8_lead_def NL_def)
  then have "stdin_run example_runtime (example_bridge, []) [''ab'', ''c\<newline>''] =
     (example_bridge\<lparr>inputBuffer := []\<rparr>,
      [] @ blocks example_runtime (postUrl example_bridge) (length (posts []))
             (filter (\<lambda>l. js_trim l \<noteq> []) [''abc'']))"
    by (rule stdin_run_lines [rotated]) (simp_all add: NL_def example_bridge_def)
  then show "posts (snd (stdin_run example_runtime (example_bridge, []) [''ab'', ''c\<newline>''])) =
     [Post ''https://w.example/mcp'' ''abc'']"
    using nb by (simp add: posts_forward example_bridge_def)
qed

text \<open>
  Claim C7. Let a stream consist of the blocks \<open>bs\<close>, each followed by a blank line, and
  of an unfinished rest. However the stream is cut into reads (also inside a delimiter),
  the framer yields exactly the blocks \<open>bs\<close>, in order, and is left with the rest in its
  buffer; the read loop of \<open>connectSSE\<close> handles exactly these blocks as events. A block
  made of an event-name line and a data line is split into these two lines; the first
  gives the name (trimmed) and the second the payload after \<open>data: \<close>. Handling the
  block of an event is handling the event by its fields, name and data; so when the
  blocks of the stream carry the events \<open>es\<close>, the read loop does with the bridge what
  these events, taken by their fields one after the other, require.
\<close>

theorem event_framer_chunk_invariant:
  assumes blocks: "\<forall>b \<in> set bs. is_block b"
    and rest: "\<not> has_blank_line rest"
    and stream: "concat chunks = concat (map (\<lambda>b. b @ [NL, NL]) bs) @ rest"
  shows "foldl framer_feed ([], []) chunks = (rest, bs)
     \<and> foldl (sse_read rt sseUrl) ([], st, tr) chunks =
         (rest, foldl (sse_event rt sseUrl) (st, tr) bs)
     \<and> (NL \<notin> set n \<and> NL \<notin> set d \<longrightarrow>
          js_split [NL] (''event: '' @ n @ [NL] @ ''data: '' @ d) = [''event: '' @ n, ''data: '' @ d]
          \<and> sse_line rt sseUrl (f, st, tr) (''event: '' @ n) =
              ((if js_trim n = ''endpoint'' then True else f), st, tr)
          \<and> sse_line rt sseUrl (False, st, tr) (''data: '' @ d) = (False, st, relay rt d tr))
     \<and> (fields_ok e \<longrightarrow>
          is_block (event_block e)
          \<and> sse_event rt sseUrl (st, tr) (event_block e) = dispatch rt sseUrl (st, tr) e)
     \<and> (bs = map event_block es \<and> (\<forall>e \<in> set es. fields_ok e) \<longrightarrow>
          foldl (sse_read rt sseUrl) ([], st, tr) chunks =
            (rest, foldl (dispatch rt sseUrl) (st, tr) es))"
proof -
  have handle: "sse_event rt sseUrl (st, tr) (event_block e) = dispatch rt sseUrl (st, tr) e"
    if ok: "fields_ok e" for e st tr
  proof (cases e)
    case (Pair name d)
    show ?thesis
    proof (cases name)
      case None
      with ok Pair have "NL \<notin> set (''data: '' @ d)" by (simp add: NL_def)
      then have split: "js_split [NL] (''data: '' @ d) = [''data: '' @ d]" by (rule js_split_one)
      have "sse_event rt sseUrl (st, tr) (''data: '' @ d) =
          snd (sse_line rt sseUrl (False, st, tr) (''data: '' @ d))"
        unfolding sse_event_def split by (simp only: prod.case foldl.simps)
      also have "\<dots> = (st, relay rt d tr)"
        by (simp only: sse_line_data if_False snd_conv)
      also have "\<dots> = dispatch rt sseUrl (st, tr) (None, d)"
        by (simp add: dispatch_def)
      finally show ?thesis
        unfolding Pair None event_block.simps .
    next
      case (Some n)
      with ok Pair have "NL \<notin> set (''event: '' @ n)" and "NL \<notin> set (''data: '' @ d)"
        by (simp_all add: NL_def)
      then have "js_split [NL] ((''event: '' @ n) @ [NL] @ (''data: '' @ d)) =
          [''event: '' @ n, ''data: '' @ d]"
        by (rule js_split_two)
      then have split: "js_split [NL] (''event: '' @ n @ [NL] @ ''data: '' @ d) =
          [''event: '' @ n, ''data: '' @ d]"
        by (simp only: append_assoc)
      have "sse_event rt sseUrl (st, tr) (''event: '' @ n @ [NL] @ ''data: '' @ d) =
          snd (sse_line rt sseUrl (sse_line rt sseUrl (False, st, tr) (''event: '' @ n))
                 (''data: '' @ d))"
        unfolding sse_event_def split by (simp only: prod.case foldl.simps)
      also have "\<dots> = dispatch rt sseUrl (st, tr) (Some n, d)"
        unfolding sse_line_event sse_line_data by (simp add: dispatch_def split: option.split)
      finally show ?thesis
        unfolding Pair Some event_block.simps .
    qed
  qed
  show ?thesis
  proof (intro conjI impI)
    have none: "indexOf [NL, NL] [] = None" by simp
    have split: "js_split [NL, NL] ([] @ concat chunks) = bs @ [rest]"
      using js_split_blocks [OF blocks rest] stream by simp
    show "foldl framer_feed ([], []) chunks = (rest, bs)"
      unfolding framer_feeds_eq [OF none] split by simp
    show read: "foldl (sse_read rt sseUrl) ([], st, tr) chunks =
        (rest, foldl (sse_event rt sseUrl) (st, tr) bs)"
      unfolding sse_reads_eq [OF none] split by simp
    have all: "foldl (sse_event rt sseUrl) w (map event_block es) = foldl (dispatch rt sseUrl) w es"
      if "\<forall>e \<in> set es. fields_ok e" for w es
      using that
    proof (induction es arbitrary: w)
      case Nil
      show ?case by simp
    next
      case (Cons e es)
      obtain st tr where w: "w = (st, tr)" by (cases w)
      from Cons.prems have "fields_ok e" by simp
      then have "sse_event rt sseUrl w (event_block e) = dispatch rt sseUrl w e"
        unfolding w by (rule handle)
      with Cons show ?case by simp
    qed
    assume "bs = map event_block es \<and> (\<forall>e \<in> set es. fields_ok e)"
    then have "foldl (sse_event rt sseUrl) (st, tr) bs = foldl (dispatch rt sseUrl) (st, tr) es"
      using all [of es "(st, tr)"] by simp
    with read show "foldl (sse_read rt sseUrl) ([], st, tr) chunks =
        (rest, foldl (dispatch rt sseUrl) (st, tr) es)"
      by simp
  next
    assume nd: "NL \<notin> set n \<and> NL \<notin> set d"
    then have "NL \<notin> set (''event: '' @ n)" and "NL \<notin> set (''data: '' @ d)"
      by (simp_all add: NL_def)
    then have "js_split [NL] ((''event: '' @ n) @ [NL] @ (''data: '' @ d)) =
        [''event: '' @ n, ''data: '' @ d]"
      by (rule js_split_two)
    then show "js_split [NL] (''event: '' @ n @ [NL] @ ''data: '' @ d) =
        [''event: '' @ n, ''data: '' @ d]"
      by (simp only: append_assoc)
    show "sse_line rt sseUrl (f, st, tr) (''event: '' @ n) =
        ((if js_trim n = ''endpoint'' then True else f), st, tr)"
      by (rule sse_line_event)
    show "sse_line rt sseUrl (False, st, tr) (''data: '' @ d) = (False, st, relay rt d tr)"
      by (simp only: sse_line_data if_False)
  next
    assume ok: "fields_ok e"
    then show "is_block (event_block e)" by (rule event_block_is_block)
    from ok show "sse_event rt sseUrl (st, tr) (event_block e) = dispatch rt sseUrl (st, tr) e"
      by (rule handle)
  qed
qed

theorem event_framer_chunk_invariant_witness:
  "foldl framer_feed ([], [])
      [''event: endpoint\<newline>data: /messages\<newline>'', ''\<newline>data: hi\<newline>\<newline>data: par''] =
     (''data: par'', [''event: endpoint\<newline>data: /messages'', ''data: hi''])
   \<and> js_split [NL] (''event: '' @ ''endpoint'' @ [NL] @ ''data: '' @ ''/messages'') =
       [''event: '' @ ''endpoint'', ''data: '' @ ''/messages'']
   \<and> foldl (sse_read example_runtime ''https://w.example/sse'') ([], example_bridge, [])
      [''event: endpoint\<newline>data: /messages\<newline>'', ''\<newline>data: hi\<newline>\<newline>data: par''] =
     (''data: par'', \<lparr>postUrl = ''https://w.example/messages'', inputBuffer = []\<rparr>,
      [Stdout ''hi\<newline>''])"
proof -
  let ?chunks = "[''event: endpoint\<newline>data: /messages\<newline>'', ''\<newline>data: hi\<newline>\<newline>data: par'']"
  let ?es = "[(Some ''endpoint'', ''/messages''), (None, ''hi'')]"
  have b: "\<forall>b \<in> set [''event: endpoint\<newline>data: /messages'', ''data: hi'']. is_block b"
    by (simp add: is_block_def NL_def)
  have r: "\<not> has_blank_line ''data: par''"
    by (simp add: NL_def)
  have c: "concat ?chunks =
      concat (map (\<lambda>b. b @ [NL, NL]) [''event: endpoint\<newline>data: /messages'', ''data: hi'']) @ ''data: par''"
    by (simp add: NL_def)
  have n: "NL \<notin> set ''endpoint'' \<and> NL \<notin> set ''/messages''"
    by (simp add: NL_def)
  have es: "[''event: endpoint\<newline>data: /messages'', ''data: hi''] = map event_block ?es
      \<and> (\<forall>e \<in> set ?es. fields_ok e)"
    by (simp add: NL_def)
  note t = event_framer_chunk_invariant [OF b r c, of example_runtime "''https://w.example/sse''"
      example_bridge "[]" "''endpoint''" "''/messages''" False "(None, ''hi'')" ?es]
  from t have 1: "foldl framer_feed ([], []) ?chunks =
     (''data: par'', [''event: endpoint\<newline>data: /messages'', ''data: hi''])"
    by (rule conjunct1)
  from t n have 2: "js_split [NL] (''event: '' @ ''endpoint'' @ [NL] @ ''data: '' @ ''/messages'') =
       [''event: '' @ ''endpoint'', ''data: '' @ ''/messages'']"
    by blast
  have "endpoint_target example_runtime ''https://w.example/sse'' ''/messages'' =
      Some ''https://w.example/messages''"
    by (simp add: endpoint_target_def startsWith_def example_runtime_def)
  then have d1: "dispatch example_runtime ''https://w.example/sse'' (example_bridge, [])
      (Some ''endpoint'', ''/messages'') =
      (\<lparr>postUrl = ''https://w.example/messages'', inputBuffer = []\<rparr>, [])"
    by (simp add: dispatch_def js_trim_endpoint example_bridge_def)
  have "\<not> suppressed example_runtime ''hi''"
    by (simp add: suppressed_def example_runtime_def)
  then have d2: "dispatch example_runtime ''https://w.example/sse''
      (\<lparr>postUrl = ''https://w.example/messages'', inputBuffer = []\<rparr>, []) (None, ''hi'') =
      (\<lparr>postUrl = ''https://w.example/messages'', inputBuffer = []\<rparr>, [Stdout ''hi\<newline>''])"
    by (simp add: dispatch_def relay_eq NL_def)
  have d: "foldl (dispatch example_runtime ''https://w.example/sse'') (example_bridge, []) ?es =
      (\<lparr>postUrl = ''https://w.example/messages'', inputBuffer = []\<rparr>, [Stdout ''hi\<newline>''])"
    unfolding foldl.simps d1 d2 ..
  from t es have "foldl (sse_read example_runtime ''https://w.example/sse'') ([], example_bridge, []) ?chunks =
      (''data: par'', foldl (dispatch example_runtime ''https://w.example/sse'') (example_bridge, []) ?es)"
    by blast
  then have 3: "foldl (sse_read example_runtime ''https://w.example/sse'') ([], example_bridge, []) ?chunks =
     (''data: par'', \<lparr>postUrl = ''https://w.example/messages'', inputBuffer = []\<rparr>,
      [Stdout ''hi\<newline>''])"
    unfolding d .
  from 1 2 3 show ?thesis by blast
qed

text \<open>
  Claim C5. A data payload outside an endpoint event (an event with no name line, or with
  a name other than \<open>endpoint\<close>) leaves the bridge unchanged; it is written to standard
  output, as it is and followed by one newline, unless it parses as JSON to an object
  whose \<open>method\<close> is \<open>connection/ready\<close> or \<open>server/capabilities\<close>, in which case nothing
  is written. A payload that does not parse is written.
\<close>

theorem notification_filter:
  assumes "NL \<notin> set d"
  shows "sse_event rt sseUrl (st, tr) (''data: '' @ d) =
       (st, if suppressed rt d then tr else tr @ [Stdout (d @ [NL])])
     \<and> (NL \<notin> set n \<and> js_trim n \<noteq> ''endpoint'' \<longrightarrow>
         sse_event rt sseUrl (st, tr) (''event: '' @ n @ [NL] @ ''data: '' @ d) =
           (st, if suppressed rt d then tr else tr @ [Stdout (d @ [NL])]))"
proof (intro conjI impI)
  show "sse_event rt sseUrl (st, tr) (''data: '' @ d) =
      (st, if suppressed rt d then tr else tr @ [Stdout (d @ [NL])])"
    unfolding sse_event_data [OF assms] relay_eq ..
next
  assume n: "NL \<notin> set n \<and> js_trim n \<noteq> ''endpoint''"
  then have "sse_event rt sseUrl (st, tr) (''event: '' @ n @ [NL] @ ''data: '' @ d) =
      (st, relay rt d tr)"
    using sse_event_named [of n d rt sseUrl st tr] assms by simp
  then show "sse_event rt sseUrl (st, tr) (''event: '' @ n @ [NL] @ ''data: '' @ d) =
      (st, if suppressed rt d then tr else tr @ [Stdout (d @ [NL])])"
    unfolding relay_eq .
qed

theorem notification_filter_witness:
  "sse_event example_runtime ''https://w.example/sse'' (example_bridge, [])
       (''data: '' @ ''{\"method\":\"connection/ready\"}'') = (example_bridge, [])
   \<and> sse_event example_runtime ''https://w.example/sse'' (example_bridge, [])
       (''data: '' @ ''{\"method\":\"notify\"}'') =
       (example_bridge, [Stdout ''{\"method\":\"notify\"}\<newline>''])
   \<and> sse_event example_runtime ''https://w.example/sse'' (example_bridge, [])
       (''data: '' @ ''not json'') = (example_bridge, [Stdout ''not json\<newline>''])
   \<and> sse_event example_runtime ''https://w.example/sse'' (example_bridge, [])
       (''event: '' @ ''message'' @ [NL] @ ''data: '' @ ''null'') =
       (example_bridge, [Stdout ''null\<newline>''])"
proof -
  have s: "suppressed example_runtime ''{\"method\":\"connection/ready\"}''"
    "\<not> suppressed example_runtime ''{\"method\":\"notify\"}''"
    "\<not> suppressed example_runtime ''not json''"
    "\<not> suppressed example_runtime ''null''"
    by (simp_all add: suppressed_def example_runtime_def method_of_def)
  have m: "NL \<notin> set ''message'' \<and> js_trim ''message'' \<noteq> ''endpoint''"
  proof -
    have "js_trim ''message'' = ''message''"
      by (rule js_trim_id) (simp_all add: js_whitespace_def suffix_to_prefix)
    then show ?thesis by (simp add: NL_def)
  qed
  have 1: "sse_event example_runtime ''https://w.example/sse'' (example_bridge, [])
       (''data: '' @ ''{\"method\":\"connection/ready\"}'') = (example_bridge, [])"
    using notification_filter [of "''{\"method\":\"connection/ready\"}''" example_runtime
        "''https://w.example/sse''" example_bridge "[]"] s
    by (simp add: NL_def)
  have 2: "sse_event example_runtime ''https://w.example/sse'' (example_bridge, [])
       (''data: '' @ ''{\"method\":\"notify\"}'') =
       (example_bridge, [Stdout ''{\"method\":\"notify\"}\<newline>''])"
    using notification_filter [of "''{\"method\":\"notify\"}''" example_runtime
        "''https://w.example/sse''" example_bridge "[]"] s
    by (simp add: NL_def)
  have 3: "sse_event example_runtime ''https://w.example/sse'' (example_bridge, [])
       (''data: '' @ ''not json'') = (example_bridge, [Stdout ''not json\<newline>''])"
    using notification_filter [of "''not json''" example_runtime
        "''https://w.example/sse''" example_bridge "[]"] s
    by (simp add: NL_def)
  have 4: "sse_event example_runtime ''https://w.example/sse'' (example_bridge, [])
       (''event: '' @ ''message'' @ [NL] @ ''data: '' @ ''null'') =
       (example_bridge, [Stdout ''null\<newline>''])"
    using notification_filter [of "''null''" example_runtime
        "''https://w.example/sse''" example_bridge "[]" "''message''"] s m
    by (simp add: NL_def)
  from 1 2 3 4 show ?thesis by blast
qed

text \<open>
  Claim C4. An event block made of the line \<open>event: endpoint\<close> and a data line with
  payload \<open>d\<close> writes nothing to the local peer and changes nothing but the target, which
  becomes: \<open>d\<close> itself when \<open>d\<close> starts with \<open>http\<close>; the origin of the SSE URL followed by
  \<open>d\<close> when \<open>d\<close> starts with \<open>/\<close> (the origin being defined); \<open>d\<close> itself otherwise.
  Whatever arrives, completes and is handled by the listener afterwards, other events and
  comment blocks included, until the next endpoint event, the target is still that one
  and every new POST goes to it.
\<close>

theorem endpoint_event_retargets:
  assumes d: "NL \<notin> set d"
    and origin: "startsWith d ''/'' \<longrightarrow> url_origin rt sseUrl = Some base"
    and target: "target = (if startsWith d ''http'' then d
                           else if startsWith d ''/'' then base @ d else d)"
  shows "occurs rt sseUrl w (Listens (''event: endpoint'' @ [NL] @ ''data: '' @ d)) =
       w\<lparr>state := (state w)\<lparr>postUrl := target\<rparr>\<rparr>
     \<and> (list_all (\<lambda>occ. \<not> endpoint_event occ) occs \<longrightarrow>
          postUrl (state (foldl (occurs rt sseUrl) (w\<lparr>state := (state w)\<lparr>postUrl := target\<rparr>\<rparr>) occs)) =
            target
          \<and> (\<exists>new. effects (foldl (occurs rt sseUrl) (w\<lparr>state := (state w)\<lparr>postUrl := target\<rparr>\<rparr>) occs) =
                   effects w @ new
                 \<and> (\<forall>e \<in> set new. is_post e \<longrightarrow> (\<exists>b. e = Post target b))))"
proof (intro conjI impI)
  have et: "endpoint_target rt sseUrl d = Some target"
    using origin target by (auto simp: endpoint_target_def)
  have "NL \<notin> set ''endpoint''" by (simp add: NL_def)
  then have "sse_event rt sseUrl (state w, effects w)
      (''event: '' @ ''endpoint'' @ [NL] @ ''data: '' @ d) =
      ((state w)\<lparr>postUrl := target\<rparr>, effects w)"
    using sse_event_named [of "''endpoint''" d rt sseUrl "state w" "effects w"] d
      js_trim_endpoint et by simp
  then have ev: "sse_event rt sseUrl (state w, effects w)
      (''event: endpoint'' @ [NL] @ ''data: '' @ d) = ((state w)\<lparr>postUrl := target\<rparr>, effects w)"
    by simp
  show "occurs rt sseUrl w (Listens (''event: endpoint'' @ [NL] @ ''data: '' @ d)) =
      w\<lparr>state := (state w)\<lparr>postUrl := target\<rparr>\<rparr>"
    unfolding occurs_def occurrence.case ev by simp
next
  assume quiet: "list_all (\<lambda>occ. \<not> endpoint_event occ) occs"
  have line: "\<exists>tr'. sse_line rt sseUrl (False, st, tr) l = (False, st, tr')"
    if "\<not> names_endpoint l" for l st tr
    using that by (auto simp: names_endpoint_def Let_def)
  have lines: "\<exists>tr'. foldl (sse_line rt sseUrl) (False, st, tr) ls = (False, st, tr')"
    if "\<forall>l \<in> set ls. \<not> names_endpoint l" for ls st tr
    using that
  proof (induction ls arbitrary: tr)
    case Nil
    show ?case by simp
  next
    case (Cons l ls)
    from Cons.prems have "\<not> names_endpoint l" by simp
    from line [OF this, of st tr]
    obtain tr1 where step: "sse_line rt sseUrl (False, st, tr) l = (False, st, tr1)" by blast
    from Cons.prems have "\<forall>l \<in> set ls. \<not> names_endpoint l" by simp
    from Cons.IH [OF this, of tr1] show ?case
      by (simp add: step del: sse_line.simps)
  qed
  have keeps: "fst (sse_event rt sseUrl (st, tr) event) = st"
    if "Listens event \<in> set occs" for event st tr
  proof -
    from quiet that have "\<not> endpoint_event (Listens event)"
      by (auto simp: list_all_iff)
    then have "\<forall>l \<in> set (js_split [NL] event). \<not> names_endpoint l"
      by (simp add: list_ex_iff)
    from lines [OF this, of st tr] show ?thesis
      by (auto simp: sse_event_def)
  qed
  from schedule_target [of occs rt sseUrl "w\<lparr>state := (state w)\<lparr>postUrl := target\<rparr>\<rparr>", OF keeps]
  show "postUrl (state (foldl (occurs rt sseUrl) (w\<lparr>state := (state w)\<lparr>postUrl := target\<rparr>\<rparr>) occs)) =
      target"
    and "\<exists>new. effects (foldl (occurs rt sseUrl) (w\<lparr>state := (state w)\<lparr>postUrl := target\<rparr>\<rparr>) occs) =
        effects w @ new
      \<and> (\<forall>e \<in> set new. is_post e \<longrightarrow> (\<exists>b. e = Post target b))"
    by simp_all
qed

theorem endpoint_event_retargets_witness:
  "occurs example_runtime ''https://w.example/sse'' example_world
       (Listens (''event: endpoint'' @ [NL] @ ''data: '' @ ''/mcp?sessionId=abc'')) =
     example_world\<lparr>state := (state example_world)\<lparr>postUrl := ''https://w.example/mcp?sessionId=abc''\<rparr>\<rparr>
   \<and> occurs example_runtime ''https://w.example/sse'' example_world
       (Listens (''event: endpoint'' @ [NL] @ ''data: '' @ ''https://other.example/rpc'')) =
     example_world\<lparr>state := (state example_world)\<lparr>postUrl := ''https://other.example/rpc''\<rparr>\<rparr>
   \<and> occurs example_runtime ''https://w.example/sse'' example_world
       (Listens (''event: endpoint'' @ [NL] @ ''data: '' @ ''mcp'')) =
     example_world\<lparr>state := (state example_world)\<lparr>postUrl := ''mcp''\<rparr>\<rparr>
   \<and> foldl (occurs example_runtime ''https://w.example/sse'')
         (example_world\<lparr>state := (state example_world)\<lparr>postUrl := ''https://w.example/mcp?sessionId=abc''\<rparr>\<rparr>)
         [Listens '': keepalive'', Listens (''data: '' @ ''{\"method\":\"notify\"}''),
          Arrives ''ping\<newline>''] =
       \<lparr>state = \<lparr>postUrl = ''https://w.example/mcp?sessionId=abc'', inputBuffer = []\<rparr>,
        effects = [Stdout ''{\"method\":\"notify\"}\<newline>'',
                   Post ''https://w.example/mcp?sessionId=abc'' ''ping''],
        inflight = [(''https://w.example/mcp?sessionId=abc'', ''ping'')]\<rparr>
   \<and> postUrl (state (foldl (occurs example_runtime ''https://w.example/sse'')
         (example_world\<lparr>state := (state example_world)\<lparr>postUrl := ''https://w.example/mcp?sessionId=abc''\<rparr>\<rparr>)
         [Listens '': keepalive'', Listens (''data: '' @ ''{\"method\":\"notify\"}''),
          Arrives ''ping\<newline>''])) = ''https://w.example/mcp?sessionId=abc''"
proof -
  let ?u = "''https://w.example/sse''"
  let ?t = "''https://w.example/mcp?sessionId=abc''"
  let ?occs = "[Listens '': keepalive'', Listens (''data: '' @ ''{\"method\":\"notify\"}''),
          Arrives ''ping\<newline>'']"
  have o: "url_origin example_runtime ?u = Some ''https://w.example''"
    by (simp add: example_runtime_def)
  have 1: "startsWith ''/mcp?sessionId=abc'' ''/'' \<longrightarrow>
      url_origin example_runtime ?u = Some ''https://w.example''"
    and 2: "startsWith ''https://other.example/rpc'' ''/'' \<longrightarrow>
      url_origin example_runtime ?u = Some ''https://w.example''"
    and 3: "startsWith ''mcp'' ''/'' \<longrightarrow>
      url_origin example_runtime ?u = Some ''https://w.example''"
    using o by simp_all
  have t1: "?t =
      (if startsWith ''/mcp?sessionId=abc'' ''http'' then ''/mcp?sessionId=abc''
       else if startsWith ''/mcp?sessionId=abc'' ''/'' then ''https://w.example'' @ ''/mcp?sessionId=abc''
       else ''/mcp?sessionId=abc'')"
    and t2: "''https://other.example/rpc'' =
      (if startsWith ''https://other.example/rpc'' ''http'' then ''https://other.example/rpc''
       else if startsWith ''https://other.example/rpc'' ''/'' then ''https://w.example'' @ ''https://other.example/rpc''
       else ''https://other.example/rpc'')"
    and t3: "''mcp'' =
      (if startsWith ''mcp'' ''http'' then ''mcp''
       else if startsWith ''mcp'' ''/'' then ''https://w.example'' @ ''mcp''
       else ''mcp'')"
    by (simp_all add: startsWith_def)
  have n: "NL \<notin> set ''/mcp?sessionId=abc''" "NL \<notin> set ''https://other.example/rpc''"
      "NL \<notin> set ''mcp''"
    by (simp_all add: NL_def)
  have k: "NL \<notin> set '': keepalive''" and p: "NL \<notin> set (''data: '' @ ''{\"method\":\"notify\"}'')"
    by (simp_all add: NL_def)
  have e1: "\<not> endpoint_event (Listens '': keepalive'')"
    unfolding endpoint_event.simps js_split_one [OF k]
    by (simp add: names_endpoint_def startsWith_def)
  have e2: "\<not> endpoint_event (Listens (''data: '' @ ''{\"method\":\"notify\"}''))"
    unfolding endpoint_event.simps js_split_one [OF p]
    by (simp add: names_endpoint_def startsWith_def)
  have e3: "\<not> endpoint_event (Arrives ''ping\<newline>'')"
    by simp
  have l: "list_all (\<lambda>occ. \<not> endpoint_event occ) ?occs"
    unfolding list.pred_inject by (intro conjI) (fact e1, fact e2, fact e3, simp)
  note a = endpoint_event_retargets [OF n(1) 1 t1, of example_world ?occs]
  note b = endpoint_event_retargets [OF n(2) 2 t2, of example_world "[]"]
  note c = endpoint_event_retargets [OF n(3) 3 t3, of example_world "[]"]
  define w1 where "w1 = \<lparr>state = \<lparr>postUrl = ?t, inputBuffer = []\<rparr>, effects = [], inflight = []\<rparr>"
  define w3 where "w3 = \<lparr>state = \<lparr>postUrl = ?t, inputBuffer = []\<rparr>,
      effects = [Stdout ''{\"method\":\"notify\"}\<newline>''], inflight = []\<rparr>"
  define w4 where "w4 = \<lparr>state = \<lparr>postUrl = ?t, inputBuffer = []\<rparr>,
      effects = [Stdout ''{\"method\":\"notify\"}\<newline>'', Post ?t ''ping''],
      inflight = [(?t, ''ping'')]\<rparr>"
  have w1: "example_world\<lparr>state := (state example_world)\<lparr>postUrl := ?t\<rparr>\<rparr> = w1"
    by (simp add: example_world_def example_bridge_def w1_def)
  have "sse_event example_runtime ?u (state w1, effects w1) '': keepalive'' = (state w1, effects w1)"
    unfolding sse_event_def js_split_one [OF k] by (simp add: startsWith_def)
  then have s2: "occurs example_runtime ?u w1 (Listens '': keepalive'') = w1"
    by (simp add: occurs_def)
  have "\<not> suppressed example_runtime ''{\"method\":\"notify\"}''"
    by (simp add: suppressed_def example_runtime_def method_of_def)
  then have "relay example_runtime ''{\"method\":\"notify\"}'' [] = [Stdout ''{\"method\":\"notify\"}\<newline>'']"
    by (simp add: relay_eq NL_def)
  moreover have "sse_event example_runtime ?u (state w1, effects w1)
      (''data: '' @ ''{\"method\":\"notify\"}'') =
      (state w1, relay example_runtime ''{\"method\":\"notify\"}'' (effects w1))"
    by (rule sse_event_data) (simp add: NL_def)
  ultimately have s3: "occurs example_runtime ?u w1
      (Listens (''data: '' @ ''{\"method\":\"notify\"}'')) = w3"
    unfolding occurs_def occurrence.case by (simp add: w1_def w3_def)
  have "toString ''ping\<newline>'' = ''ping'' @ NL # []"
    by (simp add: toString_def utf8_idle_def utf8_lead_def NL_def)
  then have s4: "occurs example_runtime ?u w3 (Arrives ''ping\<newline>'') = w4"
    unfolding occurs_def occurrence.case
    by (subst pump_line [of _ "''ping''" "[]"])
      (simp_all add: w3_def w4_def js_trim_examples NL_def)
  have run: "foldl (occurs example_runtime ?u) w1 ?occs = w4"
    unfolding foldl.simps s2 s3 s4 ..
  from a l have "postUrl (state (foldl (occurs example_runtime ?u)
      (example_world\<lparr>state := (state example_world)\<lparr>postUrl := ?t\<rparr>\<rparr>) ?occs)) = ?t"
    by blast
  with a [THEN conjunct1] b [THEN conjunct1] c [THEN conjunct1] run [unfolded w4_def]
  show ?thesis
    unfolding w1 by blast
qed

text \<open>
  Claim C6 says that every forwarded message ends in exactly one newline on standard
  output. A response body is written as it is, not trimmed, with one newline added: the
  body \<open>{}\n\<close> is written as \<open>{}\n\n\<close>.
\<close>

theorem response_with_newline:
  "forward example_runtime 2 ''https://w.example/mcp'' ''ping'' =
     [Post ''https://w.example/mcp'' ''ping'', Stdout ''{}\<newline>\<newline>'']"
proof -
  have "js_trim ''{}\<newline>'' \<noteq> []"
    by (rule js_trim_nonblank) (simp_all add: js_whitespace_def)
  then show ?thesis
    by (simp add: forward_def settle_def example_runtime_def NL_def)
qed

text \<open>
  Claim C6 as amended. A response body that is not blank is written as it is, followed by
  one newline, whatever the status; a body of white space only gives no output; and
  whatever an event block makes the listener write is a sequence of writes each made of
  a text without a newline followed by one newline.
\<close>

theorem output_framing:
  "(fetch_post rt n url line = Replied status text \<and> js_trim text \<noteq> [] \<longrightarrow>
      forward rt n url line = [Post url line, Stdout (text @ [NL])])
   \<and> (fetch_post rt n url line = Replied status text \<and> whitespace_only text \<longrightarrow>
      forward rt n url line = [Post url line])
   \<and> (\<exists>out. snd (sse_event rt sseUrl (st, tr) event) = tr @ out
         \<and> (\<forall>e \<in> set out. is_line_write e))"
proof (intro conjI impI)
  assume a: "fetch_post rt n url line = Replied status text \<and> js_trim text \<noteq> []"
  then have "text \<noteq> []" using js_trim_Nil by auto
  with a show "forward rt n url line = [Post url line, Stdout (text @ [NL])]"
    by (simp add: forward_def settle_def)
next
  assume a: "fetch_post rt n url line = Replied status text \<and> whitespace_only text"
  then have "js_trim text = []" by (simp add: whitespace_only_trim)
  with a show "forward rt n url line = [Post url line]"
    by (simp add: forward_def settle_def)
next
  show "\<exists>out. snd (sse_event rt sseUrl (st, tr) event) = tr @ out
      \<and> (\<forall>e \<in> set out. is_line_write e)"
    by (rule sse_event_writes)
qed

theorem output_framing_witness:
  "forward example_runtime 1 ''https://w.example/mcp'' ''ping'' =
     [Post ''https://w.example/mcp'' ''ping'', Stdout ''{\"error\":1}\<newline>'']
   \<and> forward example_runtime 3 ''https://w.example/mcp'' ''ping'' =
     [Post ''https://w.example/mcp'' ''ping'']
   \<and> list_all is_line_write
       (snd (sse_event example_runtime ''https://w.example/sse'' (example_bridge, []) ''data: hi''))"
proof -
  have nb: "js_trim ''{\"error\":1}'' \<noteq> []"
    by (rule js_trim_nonblank) (simp_all add: js_whitespace_def)
  have "whitespace_only ([CHR 0x20] @ [])"
    by (rule whitespace_only.more) (simp_all add: js_whitespace_def whitespace_only.empty)
  then have ws: "whitespace_only '' ''"
    by simp
  have r1: "fetch_post example_runtime 1 ''https://w.example/mcp'' ''ping'' =
      Replied 500 ''{\"error\":1}''"
    and r3: "fetch_post example_runtime 3 ''https://w.example/mcp'' ''ping'' = Replied 200 '' ''"
    by (simp_all add: example_runtime_def)
  note t1 = output_framing [of example_runtime 1 "''https://w.example/mcp''" "''ping''" 500
      "''{\"error\":1}''" "''https://w.example/sse''" example_bridge "[]" "''data: hi''"]
  note t3 = output_framing [of example_runtime 3 "''https://w.example/mcp''" "''ping''" 200
      "'' ''" "''https://w.example/sse''" example_bridge "[]" "''data: hi''"]
  from t1 r1 nb have 1: "forward example_runtime 1 ''https://w.example/mcp'' ''ping'' =
     [Post ''https://w.example/mcp'' ''ping'', Stdout ''{\"error\":1}\<newline>'']"
    by (simp add: NL_def)
  from t3 r3 ws have 2: "forward example_runtime 3 ''https://w.example/mcp'' ''ping'' =
     [Post ''https://w.example/mcp'' ''ping'']"
    by blast
  from t1 have 3: "list_all is_line_write
       (snd (sse_event example_runtime ''https://w.example/sse'' (example_bridge, []) ''data: hi''))"
    by (auto simp: list_all_iff)
  from 1 2 3 show ?thesis by blast
qed

text \<open>
  Claim C2 says that the end of the stream, like a failure, leads to a new connection
  attempt. It does not: a stream that delivers one event and ends leaves \<open>connectSSE\<close>
  returned, with one \<open>Get\<close> in the trace, though the remote would answer a second one.
\<close>

theorem sse_clean_end_no_reconnect:
  "connections example_runtime ''https://w.example/sse'' (example_bridge, [])
      (ConnectResponse True 200 ''OK'' (Body [''data: hi\<newline>\<newline>''] StreamDone))
      [ConnectResponse True 200 ''OK'' (Body [''data: again\<newline>\<newline>''] StreamOpen)] =
     (example_bridge, [Get ''https://w.example/sse'', Stdout ''hi\<newline>''], RETURNED)"
proof -
  let ?tr = "[] @ [Get ''https://w.example/sse'']"
  have none: "indexOf [NL, NL] [] = None" by simp
  have "js_split [NL, NL] (concat (map (\<lambda>b. b @ [NL, NL]) [''data: hi'']) @ []) = [''data: hi''] @ [[]]"
    by (rule js_split_blocks) (simp_all add: is_block_def NL_def)
  then have split: "js_split [NL, NL] ([] @ concat [''data: hi\<newline>\<newline>'']) = [''data: hi'', []]"
    by (simp add: NL_def)
  have ev: "sse_event example_runtime ''https://w.example/sse'' (example_bridge, ?tr) (''data: '' @ ''hi'') =
      (example_bridge, relay example_runtime ''hi'' ?tr)"
    by (rule sse_event_data) (simp add: NL_def)
  have "\<not> suppressed example_runtime ''hi''"
    by (simp add: suppressed_def example_runtime_def)
  then have rl: "relay example_runtime ''hi'' ?tr = [Get ''https://w.example/sse'', Stdout ''hi\<newline>'']"
    by (simp add: relay_eq NL_def)
  have "foldl (sse_read example_runtime ''https://w.example/sse'') ([], example_bridge, ?tr)
      [''data: hi\<newline>\<newline>''] =
      ([], example_bridge, [Get ''https://w.example/sse'', Stdout ''hi\<newline>''])"
    unfolding sse_reads_eq [OF none] split using ev rl by simp
  then show ?thesis
    unfolding connections_done connectSSE_done by simp
qed

end
